theory Spec2Isabelle
  imports Complex_Main "HOL-Library.Monad_Syntax"
begin

section \<open>Data model\<close>

text \<open>
  The pipeline of \<^verbatim>\<open>clean_to_silver.py\<close> works on a pandas DataFrame. A cell is a
  number, the missing marker (NaN), a string or a boolean. Numbers are exact rationals:
  the rounding error of binary floating point and the infinities are outside this model.
  A table is its labelled columns (label and dtype, in order) and its rows, each row a
  list of cells in column order.
\<close>

datatype cell = Num rat | NaN | Str string | Bool bool

datatype dtype = Object | Float64 | Int64 | Boolean

record dataframe =
  schema :: "(string \<times> dtype) list"
  rows :: "cell list list"

definition columns :: "dataframe \<Rightarrow> string list" where
  "columns df = map fst (schema df)"

text \<open>
  Every row has one cell per column. A table is well formed when, moreover, no two
  columns share a label: then \<^verbatim>\<open>df[c]\<close> is one Series.
\<close>

definition aligned :: "dataframe \<Rightarrow> bool" where
  "aligned df = list_all (\<lambda>r. length r = length (schema df)) (rows df)"

definition wf_table :: "dataframe \<Rightarrow> bool" where
  "wf_table df = (distinct (columns df) \<and> aligned df)"

text \<open>\<^verbatim>\<open>df[c]\<close> at one row: the cell under the first column labelled \<open>c\<close>.\<close>

definition cell_at :: "string list \<Rightarrow> cell list \<Rightarrow> string \<Rightarrow> cell" where
  "cell_at cols r c = (case map_of (zip cols r) c of Some v \<Rightarrow> v | None \<Rightarrow> NaN)"

text \<open>\<^verbatim>\<open>df[c]\<close> as a Series: the cells of column \<open>c\<close>, one per row, in row order.\<close>

definition column_of :: "dataframe \<Rightarrow> string \<Rightarrow> cell list" where
  "column_of df c = map (\<lambda>r. cell_at (columns df) r c) (rows df)"

text \<open>
  \<^verbatim>\<open>df[c] = series\<close>: an existing column is overwritten in place, a new one is appended
  as the last column.
\<close>

definition assign :: "string \<Rightarrow> dtype \<Rightarrow> cell list \<Rightarrow> dataframe \<Rightarrow> dataframe" where
  "assign c t vs df =
     (if c \<in> set (columns df)
      then \<lparr>schema = map (\<lambda>(n, u). if n = c then (n, t) else (n, u)) (schema df),
            rows = map (\<lambda>(r, v). map (\<lambda>(n, x). if n = c then v else x) (zip (columns df) r))
                       (zip (rows df) vs)\<rparr>
      else \<lparr>schema = schema df @ [(c, t)],
            rows = map (\<lambda>(r, v). r @ [v]) (zip (rows df) vs)\<rparr>)"

text \<open>\<^verbatim>\<open>df[mask]\<close>: boolean indexing keeps the rows whose mask entry is true, in order.\<close>

definition select :: "bool list \<Rightarrow> dataframe \<Rightarrow> dataframe" where
  "select m df = df\<lparr>rows := map fst (filter snd (zip (rows df) m))\<rparr>"

text \<open>\<^verbatim>\<open>series.fillna(v)\<close> at one cell.\<close>

definition fillna :: "cell \<Rightarrow> cell \<Rightarrow> cell" where
  "fillna v x = (if x = NaN then v else x)"

definition dtype_of :: "dataframe \<Rightarrow> string \<Rightarrow> dtype" where
  "dtype_of df c = (case map_of (schema df) c of Some t \<Rightarrow> t | None \<Rightarrow> Object)"

section \<open>Column registries\<close>

definition NUM_COLS :: "string list" where
  "NUM_COLS = [''trip_duration_sec'', ''trip_duration_min'', ''trip_duration_hr'',
     ''distance_traveled_km'', ''kph'',
     ''wait_time_cost'', ''distance_cost'', ''fare_w_flag'',
     ''tip'', ''miscellaneous_fees'', ''total_fare_new'',
     ''num_of_passengers'']"

definition MONEY_COLS :: "string list" where
  "MONEY_COLS = [''wait_time_cost'', ''distance_cost'', ''fare_w_flag'', ''tip'',
     ''miscellaneous_fees'', ''total_fare_new'']"

definition COMPOSITE_KEY :: "string list" where
  "COMPOSITE_KEY = [''trip_duration_sec'', ''distance_traveled_km'', ''total_fare_new'',
     ''num_of_passengers'', ''tip'', ''surge_applied'']"

section \<open>normalize_columns\<close>

text \<open>
  Python's \<^verbatim>\<open>str.strip()\<close>, \<^verbatim>\<open>str.lower()\<close> and \<^verbatim>\<open>str.replace\<close> on ASCII labels:
  the whitespace characters are the codes 9 to 13 and 28 to 32, and only \<open>A\<close> to \<open>Z\<close>
  have a lower-case form.
\<close>

definition is_space :: "char \<Rightarrow> bool" where
  "is_space c = (let n = (of_char c :: nat) in (9 \<le> n \<and> n \<le> 13) \<or> (28 \<le> n \<and> n \<le> 32))"

definition strip :: "string \<Rightarrow> string" where
  "strip s = rev (dropWhile is_space (rev (dropWhile is_space s)))"

definition lower_char :: "char \<Rightarrow> char" where
  "lower_char c = (let n = (of_char c :: nat) in if 65 \<le> n \<and> n \<le> 90 then char_of (n + 32) else c)"

definition lower :: "string \<Rightarrow> string" where
  "lower s = map lower_char s"

definition replace_char :: "char \<Rightarrow> char \<Rightarrow> string \<Rightarrow> string" where
  "replace_char a b s = map (\<lambda>c. if c = a then b else c) s"

definition normalize_name :: "string \<Rightarrow> string" where
  "normalize_name s = replace_char CHR ''-'' CHR ''_'' (replace_char CHR '' '' CHR ''_'' (lower (strip s)))"

definition normalize_columns :: "dataframe \<Rightarrow> dataframe" where
  "normalize_columns df = df\<lparr>schema := map (\<lambda>(n, t). (normalize_name n, t)) (schema df)\<rparr>"

text \<open>A label is canonical when it is trimmed, lower-case and free of spaces and hyphens.\<close>

definition canonical :: "string \<Rightarrow> bool" where
  "canonical s = (strip s = s \<and> lower s = s \<and> CHR '' '' \<notin> set s \<and> CHR ''-'' \<notin> set s)"

text \<open>A label none of whose ends is a whitespace character.\<close>

definition trimmed :: "string \<Rightarrow> bool" where
  "trimmed s = (s = [] \<or> (\<not> is_space (hd s) \<and> \<not> is_space (last s)))"

section \<open>coerce_types\<close>

text \<open>
  \<^verbatim>\<open>pd.to_numeric(series, errors="coerce")\<close> at one cell. The number reader of the
  library is the parameter \<open>parse\<close>: \<open>None\<close> where a string is no number. A boolean
  counts as 1 or 0, as it does in every comparison and division that follows.
\<close>

fun to_numeric :: "(string \<Rightarrow> rat option) \<Rightarrow> cell \<Rightarrow> cell" where
  "to_numeric parse (Num x) = Num x"
| "to_numeric parse NaN = NaN"
| "to_numeric parse (Bool b) = Num (if b then 1 else 0)"
| "to_numeric parse (Str s) = (case parse s of Some x \<Rightarrow> Num x | None \<Rightarrow> NaN)"

text \<open>
  \<^verbatim>\<open>series.astype(str)\<close> at one cell; \<open>fmt\<close> is the library's printing of a number.
\<close>

fun astype_str :: "(rat \<Rightarrow> string) \<Rightarrow> cell \<Rightarrow> string" where
  "astype_str fmt (Str s) = s"
| "astype_str fmt NaN = ''nan''"
| "astype_str fmt (Bool b) = (if b then ''True'' else ''False'')"
| "astype_str fmt (Num x) = fmt x"

text \<open>\<^verbatim>\<open>.map({"true": True, "false": False, "1": True, "0": False})\<close>: a key that is
  not in the dictionary gives the missing marker.\<close>

definition surge_map :: "string \<Rightarrow> cell" where
  "surge_map s =
     (if s = ''true'' then Bool True
      else if s = ''false'' then Bool False
      else if s = ''1'' then Bool True
      else if s = ''0'' then Bool False
      else NaN)"

text \<open>\<^verbatim>\<open>series.astype(bool)\<close> at one cell: truthiness; NaN is a non-zero float.\<close>

fun astype_bool :: "cell \<Rightarrow> cell" where
  "astype_bool (Num x) = Bool (x \<noteq> 0)"
| "astype_bool NaN = Bool True"
| "astype_bool (Bool b) = Bool b"
| "astype_bool (Str s) = Bool (s \<noteq> [])"

definition coerce_numeric :: "(string \<Rightarrow> rat option) \<Rightarrow> string \<Rightarrow> dataframe \<Rightarrow> dataframe" where
  "coerce_numeric parse c d =
     (if c \<in> set (columns d) then assign c Float64 (map (to_numeric parse) (column_of d c)) d else d)"

definition coerce_surge_text :: "(rat \<Rightarrow> string) \<Rightarrow> cell \<Rightarrow> cell" where
  "coerce_surge_text fmt v = fillna (Bool False) (surge_map (lower (strip (astype_str fmt v))))"

definition coerce_types :: "(string \<Rightarrow> rat option) \<Rightarrow> (rat \<Rightarrow> string) \<Rightarrow> dataframe \<Rightarrow> dataframe" where
  "coerce_types parse fmt df =
     (let d = fold (coerce_numeric parse) NUM_COLS df in
      if ''surge_applied'' \<in> set (columns d) then
        (if dtype_of d ''surge_applied'' = Object
         then assign ''surge_applied'' Boolean
                (map (coerce_surge_text fmt) (column_of d ''surge_applied'')) d
         else assign ''surge_applied'' Boolean (map astype_bool (column_of d ''surge_applied'')) d)
      else d)"

section \<open>clean_rows\<close>

text \<open>
  Comparing a Series with a constant, at one cell. A missing value compares false, a
  boolean compares as 1 or 0, and a string raises \<^verbatim>\<open>TypeError\<close>: the result \<open>None\<close>.
\<close>

fun num_view :: "cell \<Rightarrow> rat option option" where
  "num_view (Num x) = Some (Some x)"
| "num_view NaN = Some None"
| "num_view (Bool b) = Some (Some (if b then 1 else 0))"
| "num_view (Str s) = None"

definition gt :: "cell \<Rightarrow> rat \<Rightarrow> bool option" where
  "gt v k = map_option (\<lambda>n. case n of Some x \<Rightarrow> k < x | None \<Rightarrow> False) (num_view v)"

definition ge :: "cell \<Rightarrow> rat \<Rightarrow> bool option" where
  "ge v k = map_option (\<lambda>n. case n of Some x \<Rightarrow> k \<le> x | None \<Rightarrow> False) (num_view v)"

definition le :: "cell \<Rightarrow> rat \<Rightarrow> bool option" where
  "le v k = map_option (\<lambda>n. case n of Some x \<Rightarrow> x \<le> k | None \<Rightarrow> False) (num_view v)"

definition positive :: "cell \<Rightarrow> bool option" where
  "positive v = gt (fillna (Num 0) v) 0"

definition non_negative :: "cell \<Rightarrow> bool option" where
  "non_negative v = ge (fillna (Num 0) v) 0"

definition at_least_one :: "cell \<Rightarrow> bool option" where
  "at_least_one v = ge (fillna (Num 0) v) 1"

definition speed_sane :: "cell \<Rightarrow> bool option" where
  "speed_sane v = do { a \<leftarrow> gt (fillna (Num 0) v) 0; b \<leftarrow> le v 160; Some (a \<and> b) }"

text \<open>One guarded filter: \<^verbatim>\<open>if c in df: df = df[p(df[c])]\<close>.\<close>

definition rule :: "string \<Rightarrow> (cell \<Rightarrow> bool option) \<Rightarrow> dataframe \<Rightarrow> dataframe option" where
  "rule c p df =
     (if c \<in> set (columns df)
      then (case those (map p (column_of df c)) of None \<Rightarrow> None | Some m \<Rightarrow> Some (select m df))
      else Some df)"

fun money_rules :: "string list \<Rightarrow> dataframe \<Rightarrow> dataframe option" where
  "money_rules [] df = Some df"
| "money_rules (m # ms) df = rule m non_negative df \<bind> money_rules ms"

definition clean_rows :: "dataframe \<Rightarrow> dataframe option" where
  "clean_rows d = do {
     df \<leftarrow> rule ''trip_duration_sec'' positive d;
     df \<leftarrow> rule ''trip_duration_min'' positive df;
     df \<leftarrow> rule ''distance_traveled_km'' positive df;
     df \<leftarrow> money_rules MONEY_COLS df;
     df \<leftarrow> rule ''num_of_passengers'' at_least_one df;
     rule ''kph'' speed_sane df }"

section \<open>recompute_duration_fields\<close>

text \<open>
  \<^verbatim>\<open>series / k\<close> at one cell (a string raises \<^verbatim>\<open>TypeError\<close>) and
  \<^verbatim>\<open>series.round(6)\<close>, which rounds half to even at the sixth decimal.
\<close>

definition div_cell :: "rat \<Rightarrow> cell \<Rightarrow> cell option" where
  "div_cell k v = map_option (\<lambda>n. case n of Some x \<Rightarrow> Num (x / k) | None \<Rightarrow> NaN) (num_view v)"

definition round_half_even :: "rat \<Rightarrow> int" where
  "round_half_even x =
     (let f = \<lfloor>x\<rfloor>; d = x - of_int f
      in if d < 1 / 2 then f else if 1 / 2 < d then f + 1 else if even f then f else f + 1)"

definition round6 :: "rat \<Rightarrow> rat" where
  "round6 x = of_int (round_half_even (x * 1000000)) / 1000000"

fun round_cell :: "cell \<Rightarrow> cell" where
  "round_cell (Num x) = Num (round6 x)"
| "round_cell v = v"

definition recompute_duration_fields :: "dataframe \<Rightarrow> dataframe option" where
  "recompute_duration_fields df = do {
     d \<leftarrow> (if ''trip_duration_min'' \<notin> set (columns df) \<and> ''trip_duration_sec'' \<in> set (columns df)
          then do { vs \<leftarrow> those (map (div_cell 60) (column_of df ''trip_duration_sec''));
                    Some (assign ''trip_duration_min'' Float64 vs df) }
          else Some df);
     if ''trip_duration_min'' \<in> set (columns d)
     then do { vs \<leftarrow> those (map (div_cell 60) (column_of d ''trip_duration_min''));
               Some (assign ''trip_duration_hr'' Float64 (map round_cell vs) d) }
     else if ''trip_duration_sec'' \<in> set (columns d)
     then do { vs \<leftarrow> those (map (div_cell 3600) (column_of d ''trip_duration_sec''));
               Some (assign ''trip_duration_hr'' Float64 (map round_cell vs) d) }
     else Some d }"

section \<open>drop_duplicates_by_key\<close>

text \<open>
  Two rows are duplicates when they agree on every key column. Missing equals missing,
  and a boolean equals the number 1 or 0, as values hash and compare in Python.
\<close>

fun key_cell :: "cell \<Rightarrow> cell" where
  "key_cell (Bool b) = Num (if b then 1 else 0)"
| "key_cell v = v"

definition key_row :: "string list \<Rightarrow> string list \<Rightarrow> cell list \<Rightarrow> cell list" where
  "key_row cols key r = map (\<lambda>c. key_cell (cell_at cols r c)) key"

text \<open>\<^verbatim>\<open>duplicated\<close> marks every occurrence of a key but the first.\<close>

fun duplicated_from :: "'a list \<Rightarrow> 'a list \<Rightarrow> bool list" where
  "duplicated_from seen [] = []"
| "duplicated_from seen (k # ks) = (k \<in> set seen) # duplicated_from (k # seen) ks"

definition duplicated :: "string list \<Rightarrow> dataframe \<Rightarrow> bool list" where
  "duplicated key df = duplicated_from [] (map (key_row (columns df) key) (rows df))"

definition drop_duplicates :: "string list \<Rightarrow> dataframe \<Rightarrow> dataframe" where
  "drop_duplicates key df = select (map Not (duplicated key df)) df"

definition drop_duplicates_by_key :: "dataframe \<Rightarrow> dataframe \<times> int \<times> string list" where
  "drop_duplicates_by_key df =
     (let key = filter (\<lambda>c. c \<in> set (columns df)) COMPOSITE_KEY;
          dupes = (if key \<noteq> [] then int (length (filter id (duplicated key df))) else 0);
          out = (if key \<noteq> [] then drop_duplicates key df else df)
      in (out, dupes, key))"

section \<open>The pipeline of main\<close>

text \<open>The five stages in the order \<^verbatim>\<open>main\<close> runs them, between reading and writing.\<close>

definition main_pipeline ::
  "(string \<Rightarrow> rat option) \<Rightarrow> (rat \<Rightarrow> string) \<Rightarrow> dataframe \<Rightarrow> (dataframe \<times> int \<times> string list) option" where
  "main_pipeline parse fmt raw =
     (let df = normalize_columns raw;
          df = coerce_types parse fmt df
      in do {
        df \<leftarrow> clean_rows df;
        df \<leftarrow> recompute_duration_fields df;
        Some (drop_duplicates_by_key df) })"

section \<open>Predicates of the statements\<close>

text \<open>A cell that is a number or the missing marker.\<close>

definition num_or_missing :: "cell \<Rightarrow> bool" where
  "num_or_missing v = (case v of Num x \<Rightarrow> True | NaN \<Rightarrow> True | _ \<Rightarrow> False)"

text \<open>
  The guarded filters of \<open>clean_rows\<close> as a list, in the order the function applies
  them, and the predicate they amount to on one row: every rule whose column is present
  evaluates to true at the row's cell.
\<close>

definition rules :: "(string \<times> (cell \<Rightarrow> bool option)) list" where
  "rules = [(''trip_duration_sec'', positive), (''trip_duration_min'', positive),
            (''distance_traveled_km'', positive)]
           @ map (\<lambda>m. (m, non_negative)) MONEY_COLS
           @ [(''num_of_passengers'', at_least_one), (''kph'', speed_sane)]"

fun run_rules :: "(string \<times> (cell \<Rightarrow> bool option)) list \<Rightarrow> dataframe \<Rightarrow> dataframe option" where
  "run_rules [] df = Some df"
| "run_rules ((c, p) # rs) df = rule c p df \<bind> run_rules rs"

definition holds :: "(cell \<Rightarrow> bool option) \<Rightarrow> cell \<Rightarrow> bool" where
  "holds p v = (p v = Some True)"

definition passes :: "(string \<times> (cell \<Rightarrow> bool option)) list \<Rightarrow> string list \<Rightarrow> cell list \<Rightarrow> bool" where
  "passes rs cols r = list_all (\<lambda>(c, p). c \<in> set cols \<longrightarrow> holds p (cell_at cols r c)) rs"

definition row_ok :: "string list \<Rightarrow> cell list \<Rightarrow> bool" where
  "row_ok cols r = passes rules cols r"

text \<open>A cell that compares and divides as a number: anything but a string.\<close>

definition numeric :: "cell \<Rightarrow> bool" where
  "numeric v = (num_view v \<noteq> None)"

definition numeric_cols :: "dataframe \<Rightarrow> bool" where
  "numeric_cols df = list_all (\<lambda>c. list_all numeric (column_of df c)) NUM_COLS"

text \<open>The table without the columns labelled \<open>c\<close>: \<^verbatim>\<open>df.drop(columns=[c])\<close>.\<close>

definition drop_column :: "string \<Rightarrow> dataframe \<Rightarrow> dataframe" where
  "drop_column c df =
     \<lparr>schema = filter (\<lambda>(n, t). n \<noteq> c) (schema df),
      rows = map (\<lambda>r. map snd (filter (\<lambda>(n, v). n \<noteq> c) (zip (columns df) r))) (rows df)\<rparr>"

text \<open>Every cell of a registry numeric column is a number or missing: a coerced table.\<close>

definition coerced :: "dataframe \<Rightarrow> bool" where
  "coerced df = list_all (\<lambda>c. list_all num_or_missing (column_of df c)) NUM_COLS"






section \<open>Concrete tables\<close>

definition ex_raw :: dataframe where
  "ex_raw = \<lparr>schema = [(''trip_duration_sec'', Int64), (''tip'', Float64)],
             rows = [[Num 120, Num 0]]\<rparr>"

text \<open>
  A reader of plain decimal literals, with an optional sign and fraction. It stands for
  the library's number parser where a concrete table is evaluated; the theorems hold for
  every parser.
\<close>

definition digit :: "char \<Rightarrow> nat option" where
  "digit c = (let n = (of_char c :: nat) in if 48 \<le> n \<and> n \<le> 57 then Some (n - 48) else None)"

fun read_digits :: "nat \<Rightarrow> string \<Rightarrow> nat option" where
  "read_digits acc [] = Some acc"
| "read_digits acc (c # cs) = (case digit c of None \<Rightarrow> None | Some d \<Rightarrow> read_digits (10 * acc + d) cs)"

definition read_decimal :: "string \<Rightarrow> rat option" where
  "read_decimal s =
     (let t = strip s;
          neg = (t \<noteq> [] \<and> hd t = CHR ''-'');
          u = (if neg then tl t else t);
          ip = takeWhile (\<lambda>c. c \<noteq> CHR ''.'') u;
          fp = drop 1 (dropWhile (\<lambda>c. c \<noteq> CHR ''.'') u)
      in if ip = [] then None
         else (case (read_digits 0 ip, read_digits 0 fp) of
                 (Some a, Some b) \<Rightarrow>
                   Some ((if neg then - 1 else 1) * (of_nat a + of_nat b / 10 ^ length fp))
               | _ \<Rightarrow> None))"

definition ex_mixed :: dataframe where
  "ex_mixed = \<lparr>schema = [(''tip'', Object), (''kph'', Float64), (''note'', Object),
                        (''surge_applied'', Object)],
               rows = [[Str ''1.5'', Num 30, Str ''a'', Str '' TRUE ''],
                       [Str ''abc'', NaN, Str ''b'', Str ''maybe''],
                       [NaN, Num 200, NaN, NaN]]\<rparr>"


definition ex_clean :: dataframe where
  "ex_clean = \<lparr>schema = [(''trip_duration_sec'', Float64), (''tip'', Float64), (''kph'', Float64),
                        (''num_of_passengers'', Float64)],
               rows = [[Num 120, NaN, Num 30, Num 1],
                       [NaN, Num 1, Num 30, Num 1],
                       [Num 120, Num 1, NaN, Num 2],
                       [Num 60, Num (- 1), Num 30, Num 1],
                       [Num 60, Num 0, Num 30, NaN]]\<rparr>"

definition ex_dup :: dataframe where
  "ex_dup = \<lparr>schema = [(''trip_duration_sec'', Float64), (''tip'', Float64),
                      (''surge_applied'', Boolean), (''note'', Object)],
             rows = [[Num 120, NaN, Bool True, Str ''a''],
                     [Num 120, NaN, Bool True, Str ''b''],
                     [Num 60, Num 1, Bool False, Str ''c''],
                     [Num 120, NaN, Bool True, Str ''d'']]\<rparr>"

text \<open>A printing of numbers for the concrete tables; none of them prints a number.\<close>

definition ex_fmt :: "rat \<Rightarrow> string" where
  "ex_fmt x = ''0.0''"

definition ex_trips :: dataframe where
  "ex_trips = \<lparr>schema = [(''trip_duration_sec'', Int64), ('' Distance Traveled-KM '', Float64),
                        (''Tip'', Object), (''kph'', Float64), (''Surge_Applied'', Object)],
               rows = [[Num 120, Num 1, Str ''0'', Num 30, Str ''TRUE''],
                       [Num 0, Num 1, Str ''0'', Num 30, Str ''false''],
                       [Num 120, Num 1, Str ''0.0'', Num 31, Str '' true''],
                       [Num 90, Num 2, Str ''-1'', Num 80, Str ''no''],
                       [Num 45, Num (1 / 2), Str ''n/a'', Num 40, Str ''0'']]\<rparr>"

definition ex_trips_out :: dataframe where
  "ex_trips_out = \<lparr>schema = [(''trip_duration_sec'', Float64), (''distance_traveled_km'', Float64),
                        (''tip'', Float64), (''kph'', Float64), (''surge_applied'', Boolean),
                        (''trip_duration_min'', Float64), (''trip_duration_hr'', Float64)],
               rows = [[Num 120, Num 1, Num 0, Num 30, Bool True, Num 2, Num (33333 / 1000000)],
                       [Num 45, Num (1 / 2), NaN, Num 40, Bool False, Num (3 / 4), Num (1 / 80)]]\<rparr>"





section \<open>Tables: cells, columns, assignment\<close>

lemma length_columns: "length (columns df) = length (schema df)"
  by (simp add: columns_def)

lemma map_zip_map: "map f (zip xs (map h xs)) = map (\<lambda>x. f (x, h x)) xs"
  by (induction xs) auto

lemma select_filter: "map fst (filter snd (zip xs (map f xs))) = filter f xs"
  by (induction xs) auto

lemma those_map_Some:
  "\<forall>v\<in>set vs. p v \<noteq> None \<Longrightarrow> those (map p vs) = Some (map (\<lambda>v. the (p v)) vs)"
  by (induction vs) auto

lemma those_Some_length: "those xs = Some ys \<Longrightarrow> length ys = length xs"
  by (induction xs arbitrary: ys) (auto split: option.splits)

text \<open>A cell overwritten in place, and a cell appended.\<close>

lemma map_of_overwrite:
  "length cols = length r \<Longrightarrow>
   map_of (zip cols (map (\<lambda>(n, x). if n = c then v else x) (zip cols r))) c' =
     (if c' = c then (if c \<in> set cols then Some v else None) else map_of (zip cols r) c')"
  by (induction cols r rule: list_induct2) auto

lemma cell_at_overwrite:
  "length r = length cols \<Longrightarrow> c \<in> set cols \<Longrightarrow>
   cell_at cols (map (\<lambda>(n, x). if n = c then v else x) (zip cols r)) c' =
     (if c' = c then v else cell_at cols r c')"
  by (simp add: cell_at_def map_of_overwrite)

lemma map_of_append_col:
  "length cols = length r \<Longrightarrow> c \<notin> set cols \<Longrightarrow>
   map_of (zip (cols @ [c]) (r @ [v])) c' = (if c' = c then Some v else map_of (zip cols r) c')"
  by (induction cols r rule: list_induct2) auto

lemma cell_at_append:
  "length r = length cols \<Longrightarrow> c \<notin> set cols \<Longrightarrow>
   cell_at (cols @ [c]) (r @ [v]) c' = (if c' = c then v else cell_at cols r c')"
  unfolding cell_at_def by (subst map_of_append_col) simp_all

lemma columns_assign:
  "columns (assign c t vs df) = (if c \<in> set (columns df) then columns df else columns df @ [c])"
  by (auto simp: assign_def columns_def case_prod_unfold comp_def intro: map_cong)

lemma length_rows_assign:
  "length vs = length (rows df) \<Longrightarrow> length (rows (assign c t vs df)) = length (rows df)"
  by (simp add: assign_def)

lemma aligned_assign:
  assumes "aligned df" "length vs = length (rows df)"
  shows "aligned (assign c t vs df)"
proof -
  have "\<And>r v. (r, v) \<in> set (zip (rows df) vs) \<Longrightarrow> length r = length (schema df)"
    using assms(1) by (auto simp: aligned_def list_all_iff dest: set_zip_leftD)
  then show ?thesis
    by (auto simp: aligned_def assign_def list_all_iff length_columns)
qed

lemma map_zip_if:
  "length rs = length vs \<Longrightarrow>
   map (\<lambda>(r, v). if b then v else g r) (zip rs vs) = (if b then vs else map g rs)"
  by (induction rs vs rule: list_induct2) auto

lemma column_of_assign:
  assumes a: "aligned df" and l: "length vs = length (rows df)"
  shows "column_of (assign c t vs df) c' = (if c' = c then vs else column_of df c')"
proof -
  have len: "\<And>r v. (r, v) \<in> set (zip (rows df) vs) \<Longrightarrow> length r = length (columns df)"
    using a by (auto simp: aligned_def list_all_iff length_columns dest: set_zip_leftD)
  have z1: "map snd (zip (rows df) vs) = vs" using l by simp
  have z2: "map fst (zip (rows df) vs) = rows df" using l by simp
  show ?thesis
  proof (cases "c \<in> set (columns df)")
    case True
    have "column_of (assign c t vs df) c' =
          map (\<lambda>(r, v). if c' = c then v else cell_at (columns df) r c') (zip (rows df) vs)"
      unfolding column_of_def columns_assign
      using True len by (auto simp: assign_def cell_at_overwrite)
    also have "\<dots> = (if c' = c then vs else column_of df c')"
      unfolding column_of_def using l by (intro map_zip_if) simp
    finally show ?thesis .
  next
    case False
    have "column_of (assign c t vs df) c' =
          map (\<lambda>(r, v). if c' = c then v else cell_at (columns df) r c') (zip (rows df) vs)"
      unfolding column_of_def columns_assign
      using False len by (auto simp: assign_def cell_at_append)
    also have "\<dots> = (if c' = c then vs else column_of df c')"
      unfolding column_of_def using l by (intro map_zip_if) simp
    finally show ?thesis .
  qed
qed

lemma dtype_of_assign:
  "c \<in> set (columns df) \<Longrightarrow> dtype_of (assign c t vs df) c' = (if c' = c then t else dtype_of df c')"
proof -
  have "map_of (map (\<lambda>(n, u). if n = c then (n, t) else (n, u)) sch) c' =
        (if c' = c then (if c \<in> fst ` set sch then Some t else None) else map_of sch c')" for sch
  proof (induction sch)
    case Nil
    then show ?case by simp
  next
    case (Cons p sch)
    obtain n u where p: "p = (n, u)" by (cases p)
    have "(c, x) \<in> set sch \<Longrightarrow> c \<in> fst ` set sch" for x
      by force
    with Cons show ?case by (auto simp: p)
  qed
  then show "c \<in> set (columns df) \<Longrightarrow> ?thesis"
    by (simp add: dtype_of_def assign_def columns_def)
qed

section \<open>Properties of normalize_columns\<close>

lemma dropWhile_id: "xs = [] \<or> \<not> P (hd xs) \<Longrightarrow> dropWhile P xs = xs"
  by (cases xs) auto

lemma last_dropWhile: "dropWhile P xs \<noteq> [] \<Longrightarrow> last (dropWhile P xs) = last xs"
  by (induction xs) (auto split: if_splits)

lemma strip_trimmed: 
  assumes "trimmed s" shows "strip s = s"
proof (cases "s = []")
  case True then show ?thesis by (simp add: strip_def)
next
  case False
  with assms have h: "\<not> is_space (hd s)" and l: "\<not> is_space (last s)"
    by (auto simp: trimmed_def)
  have a: "dropWhile is_space s = s" using h by (intro dropWhile_id) simp
  have "hd (rev s) = last s" using False by (simp add: hd_rev)
  with l have b: "dropWhile is_space (rev s) = rev s" by (intro dropWhile_id) simp
  show ?thesis by (simp only: strip_def a b rev_rev_ident)
qed

lemma trimmed_strip: "trimmed (strip s)"
proof -
  define a where "a = dropWhile is_space s"
  define b where "b = dropWhile is_space (rev a)"
  have st: "strip s = rev b" by (simp only: strip_def a_def b_def)
  show ?thesis
  proof (cases "b = []")
    case True then show ?thesis by (simp add: trimmed_def st)
  next
    case False
    have 1: "\<not> is_space (hd b)" using False unfolding b_def by (rule hd_dropWhile)
    have ne: "a \<noteq> []"
    proof
      assume "a = []"
      then have "b = []" by (simp only: b_def rev.simps dropWhile.simps)
      with False show False by simp
    qed
    have 2: "\<not> is_space (hd a)" using ne unfolding a_def by (rule hd_dropWhile)
    have "last b = last (rev a)" using False unfolding b_def by (rule last_dropWhile)
    also have "\<dots> = hd a" using ne by (simp add: last_rev)
    finally have 3: "last b = hd a" .
    have "hd (rev b) = last b" "last (rev b) = hd b" using False by (simp_all add: hd_rev last_rev)
    then show ?thesis using 1 2 3 by (simp add: trimmed_def st)
  qed
qed

lemma trimmed_map:
  assumes f: "\<And>c. \<not> is_space c \<Longrightarrow> \<not> is_space (f c)" and t: "trimmed s"
  shows "trimmed (map f s)"
proof (cases "s = []")
  case True
  then show ?thesis by (simp add: trimmed_def)
next
  case False
  then have e: "hd (map f s) = f (hd s)" "last (map f s) = f (last s)"
    by (simp_all add: hd_map last_map)
  from t False have "\<not> is_space (hd s)" "\<not> is_space (last s)"
    by (simp_all add: trimmed_def)
  then have "\<not> is_space (f (hd s))" "\<not> is_space (f (last s))"
    by (simp_all add: f)
  then show ?thesis unfolding trimmed_def e by simp
qed

lemma of_char_lower: 
  assumes "65 \<le> (of_char c :: nat)" "(of_char c :: nat) \<le> 90"
  shows "(of_char (lower_char c) :: nat) = of_char c + 32"
proof -
  have "(of_char (char_of (of_char c + 32 :: nat)) :: nat) = (of_char c + 32) mod 256"
    by (rule of_char_of)
  also have "\<dots> = of_char c + 32" using assms by simp
  finally show ?thesis using assms by (simp add: lower_char_def Let_def)
qed

lemma lower_char_other:
  "\<not> (65 \<le> (of_char c :: nat) \<and> (of_char c :: nat) \<le> 90) \<Longrightarrow> lower_char c = c"
  by (auto simp add: lower_char_def Let_def)

lemma lower_char_not_space: "\<not> is_space c \<Longrightarrow> \<not> is_space (lower_char c)"
proof (cases "65 \<le> (of_char c :: nat) \<and> (of_char c :: nat) \<le> 90")
  case True
  then have "(of_char (lower_char c) :: nat) = of_char c + 32" by (simp add: of_char_lower)
  with True show ?thesis by (simp add: is_space_def Let_def)
next
  case False
  assume "\<not> is_space c"
  with False show ?thesis by (simp add: lower_char_other)
qed

lemma lower_char_idem: "lower_char (lower_char c) = lower_char c"
proof (cases "65 \<le> (of_char c :: nat) \<and> (of_char c :: nat) \<le> 90")
  case True
  then have "(of_char (lower_char c) :: nat) = of_char c + 32" by (simp add: of_char_lower)
  with True have "\<not> (65 \<le> (of_char (lower_char c) :: nat) \<and> (of_char (lower_char c) :: nat) \<le> 90)"
    by simp
  then show ?thesis by (rule lower_char_other)
next
  case False
  then show ?thesis by (simp add: lower_char_other)
qed

lemma underscore_facts:
  "\<not> is_space CHR ''_''" "lower_char CHR ''_'' = CHR ''_''"
  by (simp_all add: is_space_def lower_char_def)

lemma trimmed_replace: "\<not> is_space b \<Longrightarrow> trimmed s \<Longrightarrow> trimmed (replace_char a b s)"
  unfolding replace_char_def by (rule trimmed_map) auto

lemma lower_fixed_replace:
  "lower_char b = b \<Longrightarrow> \<forall>c\<in>set s. lower_char c = c \<Longrightarrow> \<forall>c\<in>set (replace_char a b s). lower_char c = c"
  by (auto simp: replace_char_def)

lemma lower_fixed: "\<forall>c\<in>set s. lower_char c = c \<Longrightarrow> lower s = s"
  by (simp add: lower_def map_idI)

lemma replace_absent: "a \<notin> set s \<Longrightarrow> replace_char a b s = s"
  by (auto simp: replace_char_def intro: map_idI)

lemma replace_removes: "a \<noteq> b \<Longrightarrow> a \<notin> set (replace_char a b s)"
  by (auto simp: replace_char_def)

lemma replace_keeps_absent: "c \<noteq> b \<Longrightarrow> c \<notin> set s \<Longrightarrow> c \<notin> set (replace_char a b s)"
  by (auto simp: replace_char_def)

lemma canonical_normalize_name: "canonical (normalize_name s)"
proof -
  let ?l = "lower (strip s)"
  let ?r = "replace_char CHR '' '' CHR ''_'' ?l"
  have t: "trimmed ?l"
    unfolding lower_def by (rule trimmed_map[OF lower_char_not_space trimmed_strip])
  have 1: "trimmed (normalize_name s)"
    unfolding normalize_name_def
    by (intro trimmed_replace underscore_facts t)
  have f: "\<forall>c\<in>set ?l. lower_char c = c"
    by (auto simp: lower_def lower_char_idem)
  have 2: "lower (normalize_name s) = normalize_name s"
    unfolding normalize_name_def
    by (intro lower_fixed lower_fixed_replace underscore_facts f)
  have 3: "CHR '' '' \<notin> set (normalize_name s)"
    unfolding normalize_name_def
    by (intro replace_keeps_absent replace_removes) simp_all
  have 4: "CHR ''-'' \<notin> set (normalize_name s)"
    unfolding normalize_name_def
    by (intro replace_removes) simp
  show ?thesis
    unfolding canonical_def using strip_trimmed[OF 1] 2 3 4 by simp
qed

lemma normalize_name_canonical: "canonical s \<Longrightarrow> normalize_name s = s"
  by (simp add: canonical_def normalize_name_def replace_absent)

lemma normalize_name_idem: "normalize_name (normalize_name s) = normalize_name s"
  by (rule normalize_name_canonical[OF canonical_normalize_name])

lemma columns_normalize: "columns (normalize_columns df) = map normalize_name (columns df)"
  by (simp add: columns_def normalize_columns_def case_prod_unfold comp_def)

text \<open>
  Claim C9. Column normalization is idempotent: normalizing a normalized table changes
  nothing, every label it produces is canonical, a table whose labels are all canonical
  is returned as it is, and the rows and dtypes are never touched.
\<close>

theorem normalize_columns_idempotent:
  "normalize_columns (normalize_columns df) = normalize_columns df
   \<and> rows (normalize_columns df) = rows df
   \<and> map snd (schema (normalize_columns df)) = map snd (schema df)
   \<and> list_all canonical (columns (normalize_columns df))
   \<and> (list_all canonical (columns df) \<longrightarrow> normalize_columns df = df)"
proof (intro conjI impI)
  show "normalize_columns (normalize_columns df) = normalize_columns df"
    by (simp add: normalize_columns_def case_prod_unfold comp_def normalize_name_idem)
  show "rows (normalize_columns df) = rows df"
    by (simp add: normalize_columns_def)
  show "map snd (schema (normalize_columns df)) = map snd (schema df)"
    by (simp add: normalize_columns_def case_prod_unfold comp_def)
  show "list_all canonical (columns (normalize_columns df))"
    by (simp add: columns_normalize list_all_iff canonical_normalize_name)
next
  assume "list_all canonical (columns df)"
  then have "\<forall>p\<in>set (schema df). normalize_name (fst p) = fst p"
    by (simp add: list_all_iff columns_def normalize_name_canonical)
  then have "map (\<lambda>(n, t). (normalize_name n, t)) (schema df) = schema df"
    by (intro map_idI) (auto simp: case_prod_unfold)
  then show "normalize_columns df = df"
    by (simp add: normalize_columns_def)
qed

theorem normalize_columns_idempotent_witness:
  "list_all canonical (columns ex_raw) \<and> normalize_columns ex_raw = ex_raw"
proof -
  have h: "list_all canonical (columns ex_raw)" by code_simp
  with normalize_columns_idempotent[of ex_raw] show ?thesis by blast
qed


section \<open>Properties of coerce_types\<close>

lemma length_column_of: "length (column_of df c) = length (rows df)"
  by (simp add: column_of_def)

lemma to_numeric_idem: "to_numeric parse (to_numeric parse v) = to_numeric parse v"
  by (cases v) (auto split: option.splits)

lemma to_numeric_num_or_missing: "num_or_missing (to_numeric parse v)"
  by (cases v) (auto simp: num_or_missing_def split: option.splits)

lemma columns_coerce_numeric: "columns (coerce_numeric parse c d) = columns d"
  by (simp add: coerce_numeric_def columns_assign)

lemma length_rows_coerce_numeric: "length (rows (coerce_numeric parse c d)) = length (rows d)"
  by (simp add: coerce_numeric_def length_rows_assign length_column_of)

lemma aligned_coerce_numeric: "aligned d \<Longrightarrow> aligned (coerce_numeric parse c d)"
  by (simp add: coerce_numeric_def aligned_assign length_column_of)

lemma column_of_coerce_numeric:
  "aligned d \<Longrightarrow> column_of (coerce_numeric parse c d) c' =
     (if c' = c \<and> c \<in> set (columns d) then map (to_numeric parse) (column_of d c) else column_of d c')"
  by (simp add: coerce_numeric_def column_of_assign length_column_of)

lemma dtype_of_coerce_numeric:
  "c' \<noteq> c \<Longrightarrow> dtype_of (coerce_numeric parse c d) c' = dtype_of d c'"
  by (simp add: coerce_numeric_def dtype_of_assign)

lemma fold_coerce_numeric:
  "aligned d \<Longrightarrow>
   columns (fold (coerce_numeric parse) cs d) = columns d
   \<and> length (rows (fold (coerce_numeric parse) cs d)) = length (rows d)
   \<and> aligned (fold (coerce_numeric parse) cs d)
   \<and> (c' \<notin> set cs \<longrightarrow> dtype_of (fold (coerce_numeric parse) cs d) c' = dtype_of d c')
   \<and> column_of (fold (coerce_numeric parse) cs d) c' =
       (if c' \<in> set cs \<and> c' \<in> set (columns d)
        then map (to_numeric parse) (column_of d c') else column_of d c')"
proof (induction cs arbitrary: d)
  case Nil
  then show ?case by simp
next
  case (Cons c cs)
  let ?d = "coerce_numeric parse c d"
  have a: "aligned ?d" using Cons.prems by (rule aligned_coerce_numeric)
  note ih = Cons.IH[OF a]
  show ?case
    using ih Cons.prems
    by (auto simp: columns_coerce_numeric length_rows_coerce_numeric
        column_of_coerce_numeric dtype_of_coerce_numeric to_numeric_idem comp_def)
qed

lemma surge_not_numeric: "''surge_applied'' \<notin> set NUM_COLS"
  by (simp add: NUM_COLS_def)

lemma coerce_types_shape:
  assumes "aligned df"
  shows "columns (coerce_types parse fmt df) = columns df"
    and "length (rows (coerce_types parse fmt df)) = length (rows df)"
    and "aligned (coerce_types parse fmt df)"
  using fold_coerce_numeric[OF assms, of parse NUM_COLS]
  by (simp_all add: coerce_types_def Let_def columns_assign length_rows_assign
      aligned_assign length_column_of)

lemma column_of_coerce_types:
  assumes "aligned df"
  shows "column_of (coerce_types parse fmt df) c =
     (if c \<in> set (columns df) \<and> c \<in> set NUM_COLS then map (to_numeric parse) (column_of df c)
      else if c \<in> set (columns df) \<and> c = ''surge_applied'' then
        (if dtype_of df ''surge_applied'' = Object
         then map (coerce_surge_text fmt) (column_of df ''surge_applied'')
         else map astype_bool (column_of df ''surge_applied''))
      else column_of df c)"
proof -
  let ?d = "fold (coerce_numeric parse) NUM_COLS df"
  have f: "columns ?d = columns df" "length (rows ?d) = length (rows df)" "aligned ?d"
    "dtype_of ?d ''surge_applied'' = dtype_of df ''surge_applied''"
    "column_of ?d ''surge_applied'' = column_of df ''surge_applied''"
    using fold_coerce_numeric[OF assms, of parse NUM_COLS "''surge_applied''"] surge_not_numeric
    by simp_all
  have g: "column_of ?d c = (if c \<in> set NUM_COLS \<and> c \<in> set (columns df)
        then map (to_numeric parse) (column_of df c) else column_of df c)"
    using fold_coerce_numeric[OF assms, of parse NUM_COLS c] by simp
  show ?thesis
    using surge_not_numeric
    by (auto simp: coerce_types_def Let_def f g column_of_assign length_column_of)
qed


text \<open>
  Claim C6. On every well-formed table the type coercer returns a table with the same
  columns and as many rows, in the same order: each cell of a present registry numeric
  column is the \<open>to_numeric\<close> image of the input cell at the same row, hence a number
  or the missing marker, a string that does not parse becoming missing; the columns
  outside the registry are returned as they are. The coercer is a total function: it
  raises nothing and removes no row.
\<close>

theorem coerce_types_numeric_or_missing:
  assumes "wf_table df"
  shows "length (rows (coerce_types parse fmt df)) = length (rows df)
     \<and> columns (coerce_types parse fmt df) = columns df
     \<and> wf_table (coerce_types parse fmt df)
     \<and> (\<forall>c\<in>set (columns df). c \<in> set NUM_COLS \<longrightarrow>
           column_of (coerce_types parse fmt df) c = map (to_numeric parse) (column_of df c)
           \<and> list_all num_or_missing (column_of (coerce_types parse fmt df) c))
     \<and> (\<forall>c\<in>set (columns df). c \<notin> set NUM_COLS \<and> c \<noteq> ''surge_applied'' \<longrightarrow>
           column_of (coerce_types parse fmt df) c = column_of df c)
     \<and> (\<forall>s. to_numeric parse (Str s) = (case parse s of Some x \<Rightarrow> Num x | None \<Rightarrow> NaN))"
proof -
  have a: "aligned df" using assms by (simp add: wf_table_def)
  note sh = coerce_types_shape[OF a, of parse fmt]
  have w: "wf_table (coerce_types parse fmt df)"
    using assms sh by (simp add: wf_table_def)
  show ?thesis
    using sh w
    by (simp add: column_of_coerce_types[OF a] list_all_iff to_numeric_num_or_missing)
qed

theorem coerce_types_numeric_or_missing_witness:
  "wf_table ex_mixed
   \<and> column_of (coerce_types read_decimal ex_fmt ex_mixed) ''tip'' = [Num (3 / 2), NaN, NaN]
   \<and> length (rows (coerce_types read_decimal ex_fmt ex_mixed)) = 3"
proof -
  have h: "wf_table ex_mixed" by code_simp
  have c: "''tip'' \<in> set (columns ex_mixed)" "''tip'' \<in> set NUM_COLS" by code_simp+
  have "column_of (coerce_types read_decimal ex_fmt ex_mixed) ''tip''
        = map (to_numeric read_decimal) (column_of ex_mixed ''tip'')"
    and l: "length (rows (coerce_types read_decimal ex_fmt ex_mixed)) = length (rows ex_mixed)"
    using coerce_types_numeric_or_missing[OF h, of read_decimal ex_fmt] c by blast+
  moreover have "map (to_numeric read_decimal) (column_of ex_mixed ''tip'') = [Num (3 / 2), NaN, NaN]"
    by code_simp
  moreover have "length (rows ex_mixed) = 3" by code_simp
  ultimately show ?thesis using h by simp
qed

text \<open>
  Claim C5. When \<open>surge_applied\<close> is present with dtype object, every cell of it is
  trimmed, lower-cased and looked up: \<open>true\<close> and \<open>1\<close> give true, and every other string
  (\<open>false\<close>, \<open>0\<close>, the empty string, anything else) gives false. No cell becomes
  missing and no row is removed.
\<close>

theorem coerce_types_surge_textual:
  assumes "wf_table df" "''surge_applied'' \<in> set (columns df)"
    and "dtype_of df ''surge_applied'' = Object"
  shows "length (rows (coerce_types parse fmt df)) = length (rows df)
     \<and> column_of (coerce_types parse fmt df) ''surge_applied''
         = map (coerce_surge_text fmt) (column_of df ''surge_applied'')
     \<and> (\<forall>s. coerce_surge_text fmt (Str s) =
            (if lower (strip s) = ''true'' \<or> lower (strip s) = ''1'' then Bool True
             else Bool False))
     \<and> (\<forall>v. coerce_surge_text fmt v \<noteq> NaN)"
proof -
  have a: "aligned df" using assms by (simp add: wf_table_def)
  have 1: "coerce_surge_text fmt v =
       (if lower (strip (astype_str fmt v)) = ''true'' \<or> lower (strip (astype_str fmt v)) = ''1''
        then Bool True else Bool False)" for v
    by (simp add: coerce_surge_text_def surge_map_def fillna_def)
  have 2: "coerce_surge_text fmt v \<noteq> NaN" for v
    by (simp add: 1)
  show ?thesis
    using assms(2,3) surge_not_numeric coerce_types_shape(2)[OF a, of parse fmt] 2
    by (simp add: column_of_coerce_types[OF a] 1)
qed

theorem coerce_types_surge_textual_witness:
  "wf_table ex_mixed \<and> dtype_of ex_mixed ''surge_applied'' = Object
   \<and> column_of (coerce_types read_decimal ex_fmt ex_mixed) ''surge_applied''
       = [Bool True, Bool False, Bool False]"
proof -
  have h: "wf_table ex_mixed" "''surge_applied'' \<in> set (columns ex_mixed)"
    "dtype_of ex_mixed ''surge_applied'' = Object" by code_simp+
  have "column_of (coerce_types read_decimal ex_fmt ex_mixed) ''surge_applied''
        = map (coerce_surge_text ex_fmt) (column_of ex_mixed ''surge_applied'')"
    using coerce_types_surge_textual[OF h, of read_decimal ex_fmt] by blast
  moreover have "map (coerce_surge_text ex_fmt) (column_of ex_mixed ''surge_applied'')
        = [Bool True, Bool False, Bool False]"
    by code_simp
  ultimately show ?thesis using h by simp
qed



section \<open>Properties of clean_rows\<close>

lemma numeric_defined:
  assumes "numeric v"
  shows "positive v \<noteq> None" "non_negative v \<noteq> None" "at_least_one v \<noteq> None"
    "speed_sane v \<noteq> None"
  using assms
  by (cases v; simp add: numeric_def positive_def non_negative_def at_least_one_def
      speed_sane_def gt_def ge_def le_def fillna_def)+

lemma rule_absent: "c \<notin> set (columns df) \<Longrightarrow> rule c p df = Some df"
  by (simp add: rule_def)

lemma rule_present:
  assumes "c \<in> set (columns df)" and d: "\<forall>r\<in>set (rows df). p (cell_at (columns df) r c) \<noteq> None"
  shows "rule c p df = Some (df\<lparr>rows := filter (\<lambda>r. holds p (cell_at (columns df) r c)) (rows df)\<rparr>)"
proof -
  have "\<forall>v\<in>set (column_of df c). p v \<noteq> None" using d by (simp add: column_of_def)
  then have t: "those (map p (column_of df c)) = Some (map (\<lambda>v. the (p v)) (column_of df c))"
    by (rule those_map_Some)
  have "map fst (filter snd (zip (rows df) (map (\<lambda>r. the (p (cell_at (columns df) r c))) (rows df))))
        = filter (\<lambda>r. the (p (cell_at (columns df) r c))) (rows df)"
    by (rule select_filter)
  also have "\<dots> = filter (\<lambda>r. holds p (cell_at (columns df) r c)) (rows df)"
    using d by (intro filter_cong) (auto simp: holds_def)
  finally have s: "select (map (\<lambda>v. the (p v)) (column_of df c)) df
        = df\<lparr>rows := filter (\<lambda>r. holds p (cell_at (columns df) r c)) (rows df)\<rparr>"
    by (simp add: select_def column_of_def comp_def)
  have "rule c p df = Some (select (map (\<lambda>v. the (p v)) (column_of df c)) df)"
    using assms(1) by (simp add: rule_def t)
  then show ?thesis by (simp only: s)
qed

lemma rule_filter:
  assumes "\<forall>r\<in>set (rows df). p (cell_at (columns df) r c) \<noteq> None"
  shows "rule c p df =
    Some (df\<lparr>rows := filter (\<lambda>r. c \<in> set (columns df) \<longrightarrow> holds p (cell_at (columns df) r c)) (rows df)\<rparr>)"
proof (cases "c \<in> set (columns df)")
  case True
  then show ?thesis using rule_present[OF True assms] by simp
next
  case False
  then show ?thesis by (simp add: rule_absent)
qed

lemma columns_rows_update [simp]: "columns (df\<lparr>rows := rs\<rparr>) = columns df"
  by (simp add: columns_def)

lemma run_rules_filter:
  assumes "\<forall>(c, p)\<in>set rs. \<forall>r\<in>set (rows df). p (cell_at (columns df) r c) \<noteq> None"
  shows "run_rules rs df = Some (df\<lparr>rows := filter (passes rs (columns df)) (rows df)\<rparr>)"
  using assms
proof (induction rs arbitrary: df)
  case Nil
  then show ?case by (simp add: passes_def)
next
  case (Cons x rs)
  obtain c p where x: "x = (c, p)" by (cases x)
  let ?q = "\<lambda>r. c \<in> set (columns df) \<longrightarrow> holds p (cell_at (columns df) r c)"
  let ?d = "df\<lparr>rows := filter ?q (rows df)\<rparr>"
  have 1: "rule c p df = Some ?d"
    using Cons.prems by (intro rule_filter) (simp add: x)
  have 2: "\<forall>(c, p)\<in>set rs. \<forall>r\<in>set (rows ?d). p (cell_at (columns ?d) r c) \<noteq> None"
    using Cons.prems by (auto simp: x)
  have 3: "filter (passes rs (columns df)) (filter ?q (rows df))
           = filter (passes (x # rs) (columns df)) (rows df)"
    by (auto simp: passes_def x intro: filter_cong)
  show ?case
    using Cons.IH[OF 2] 3 by (simp add: x 1)
qed

lemma money_rules_run:
  "run_rules (map (\<lambda>m. (m, non_negative)) ms @ rs) df = money_rules ms df \<bind> run_rules rs"
proof (induction ms arbitrary: df)
  case Nil
  then show ?case by simp
next
  case (Cons m ms)
  have "run_rules (map (\<lambda>m. (m, non_negative)) ms @ rs) = (\<lambda>y. money_rules ms y \<bind> run_rules rs)"
    by (rule ext) (rule Cons.IH)
  then show ?case by simp
qed

lemma run_rules_funs:
  "run_rules [] = Some"
  "run_rules ((c, p) # rs) = (\<lambda>df. rule c p df \<bind> run_rules rs)"
  "run_rules (map (\<lambda>m. (m, non_negative)) ms @ rs) = (\<lambda>df. money_rules ms df \<bind> run_rules rs)"
  by (rule ext, simp add: money_rules_run)+

lemma clean_rows_run: "clean_rows d = run_rules rules d"
  unfolding rules_def clean_rows_def append.simps run_rules_funs
  by simp

lemma rules_columns: "fst ` set rules \<subseteq> set NUM_COLS"
  by (simp add: rules_def MONEY_COLS_def NUM_COLS_def)

lemma rules_predicates:
  "(c, p) \<in> set rules \<Longrightarrow> p = positive \<or> p = non_negative \<or> p = at_least_one \<or> p = speed_sane"
  by (auto simp: rules_def)

lemma numeric_cols_cell:
  "numeric_cols df \<Longrightarrow> c \<in> set NUM_COLS \<Longrightarrow> r \<in> set (rows df) \<Longrightarrow>
   numeric (cell_at (columns df) r c)"
  by (auto simp: numeric_cols_def list_all_iff column_of_def)

lemma clean_rows_filter:
  assumes "numeric_cols df"
  shows "clean_rows df = Some (df\<lparr>rows := filter (row_ok (columns df)) (rows df)\<rparr>)"
proof -
  have "p (cell_at (columns df) r c) \<noteq> None"
    if cp: "(c, p) \<in> set rules" and r: "r \<in> set (rows df)" for c p r
  proof -
    have "c \<in> set NUM_COLS" using cp rules_columns by force
    then have "numeric (cell_at (columns df) r c)"
      using assms r by (intro numeric_cols_cell)
    note d = numeric_defined[OF this]
    from rules_predicates[OF cp] d show ?thesis by auto
  qed
  then have "\<forall>(c, p)\<in>set rules. \<forall>r\<in>set (rows df). p (cell_at (columns df) r c) \<noteq> None"
    by blast
  then show ?thesis
    unfolding clean_rows_run row_ok_def by (rule run_rules_filter)
qed

lemma passes_mem:
  "passes rs cols r \<Longrightarrow> (c, p) \<in> set rs \<Longrightarrow> c \<in> set cols \<Longrightarrow> holds p (cell_at cols r c)"
  by (auto simp: passes_def list_all_iff)

lemma passes_split:
  "passes rs cols r \<longleftrightarrow> passes (filter P rs) cols r \<and> passes (filter (\<lambda>x. \<not> P x) rs) cols r"
  by (auto simp: passes_def list_all_iff)

lemma passes_absent:
  "c \<notin> set cols \<Longrightarrow> passes rs cols r \<longleftrightarrow> passes (filter (\<lambda>(n, p). n \<noteq> c) rs) cols r"
  by (auto simp: passes_def list_all_iff)

lemma missing_as_zero:
  "positive NaN = positive (Num 0)" "non_negative NaN = non_negative (Num 0)"
  "at_least_one NaN = at_least_one (Num 0)" "speed_sane NaN = speed_sane (Num 0)"
  by (simp_all add: positive_def non_negative_def at_least_one_def speed_sane_def fillna_def
      gt_def ge_def le_def)

lemma missing_fails:
  "\<not> holds positive NaN" "\<not> holds at_least_one NaN" "\<not> holds speed_sane NaN"
  "holds non_negative NaN"
  by (simp_all add: holds_def positive_def non_negative_def at_least_one_def speed_sane_def
      fillna_def gt_def ge_def le_def)

lemma strict_rules_all:
  "list_all (\<lambda>c. list_ex (\<lambda>(n, p). n = c \<and> \<not> holds p NaN) rules)
     [''trip_duration_sec'', ''trip_duration_min'', ''distance_traveled_km'', ''kph'',
      ''num_of_passengers'']"
  by code_simp

lemma strict_rules:
  assumes "c \<in> set [''trip_duration_sec'', ''trip_duration_min'', ''distance_traveled_km'', ''kph'',
             ''num_of_passengers'']"
  shows "\<exists>p. (c, p) \<in> set rules \<and> \<not> holds p NaN"
proof -
  from strict_rules_all assms have "list_ex (\<lambda>(n, p). n = c \<and> \<not> holds p NaN) rules"
    unfolding list_all_iff by (rule bspec)
  then obtain x where m: "x \<in> set rules" and q: "case x of (n, p) \<Rightarrow> n = c \<and> \<not> holds p NaN"
    unfolding list_ex_iff by (rule bexE)
  obtain n p where x: "x = (n, p)" by (cases x)
  from q have "n = c" "\<not> holds p NaN" by (simp_all add: x)
  with m x have "(c, p) \<in> set rules \<and> \<not> holds p NaN" by simp
  then show ?thesis by (intro exI[of _ p])
qed

lemma money_rules_all:
  "list_all (\<lambda>m. list_all (\<lambda>(n, p). n = m \<longrightarrow> holds p NaN) rules) MONEY_COLS"
  by code_simp

lemma money_rule_missing:
  assumes "m \<in> set MONEY_COLS" "(m, p) \<in> set rules"
  shows "holds p NaN"
proof -
  from money_rules_all assms(1) have "list_all (\<lambda>(n, p). n = m \<longrightarrow> holds p NaN) rules"
    unfolding list_all_iff by (rule bspec)
  then have "case (m, p) of (n, p) \<Rightarrow> n = m \<longrightarrow> holds p NaN"
    unfolding list_all_iff using assms(2) by (rule bspec)
  then show ?thesis by simp
qed

lemma missing_money_passes:
  assumes "m \<in> set MONEY_COLS" "cell_at cols r m = NaN"
  shows "passes rules cols r \<longleftrightarrow> passes (filter (\<lambda>(c, p). c \<noteq> m) rules) cols r"
proof -
  have "holds p (cell_at cols r c)" if "(c, p) \<in> set rules" "c = m" for c p
    using that assms money_rule_missing[of m p] by simp
  then have "passes (filter (\<lambda>x. \<not> (case x of (c, p) \<Rightarrow> c \<noteq> m)) rules) cols r"
    by (auto simp: passes_def list_all_iff)
  then show ?thesis
    using passes_split[of rules cols r "\<lambda>(c, p). c \<noteq> m"] by simp
qed

text \<open>
  Claim C7. On a table whose registry columns hold no string, the filter returns the rows
  that pass every rule of a present column. Each rule gives on a missing value what it
  gives on 0: a row whose present seconds, minutes, distance, speed or passenger cell is
  missing is dropped, while a row whose monetary cell is missing is kept or dropped by
  the other rules alone.
\<close>

theorem clean_rows_missing_as_zero:
  assumes "numeric_cols df"
  shows "\<exists>out. clean_rows df = Some out \<and> schema out = schema df
     \<and> rows out = filter (row_ok (columns df)) (rows df)
     \<and> positive NaN = positive (Num 0) \<and> non_negative NaN = non_negative (Num 0)
     \<and> at_least_one NaN = at_least_one (Num 0) \<and> speed_sane NaN = speed_sane (Num 0)
     \<and> (\<forall>c\<in>set [''trip_duration_sec'', ''trip_duration_min'', ''distance_traveled_km'',
                  ''kph'', ''num_of_passengers''].
           c \<in> set (columns df) \<longrightarrow>
           (\<forall>r\<in>set (rows df). cell_at (columns df) r c = NaN \<longrightarrow> r \<notin> set (rows out)))
     \<and> (\<forall>m\<in>set MONEY_COLS. \<forall>r\<in>set (rows df). cell_at (columns df) r m = NaN \<longrightarrow>
           (r \<in> set (rows out) \<longleftrightarrow>
            passes (filter (\<lambda>(c, p). c \<noteq> m) rules) (columns df) r))"
proof -
  let ?out = "df\<lparr>rows := filter (row_ok (columns df)) (rows df)\<rparr>"
  have 1: "clean_rows df = Some ?out" using assms by (rule clean_rows_filter)
  have 2: "r \<notin> set (rows ?out)"
    if c: "c \<in> set [''trip_duration_sec'', ''trip_duration_min'', ''distance_traveled_km'',
                  ''kph'', ''num_of_passengers'']"
      and p: "c \<in> set (columns df)" and n: "cell_at (columns df) r c = NaN" for c r
  proof
    assume "r \<in> set (rows ?out)"
    then have ok: "passes rules (columns df) r" by (simp add: row_ok_def)
    from strict_rules[OF c] obtain q where q: "(c, q) \<in> set rules" "\<not> holds q NaN" by blast
    from passes_mem[OF ok q(1) p] n q(2) show False by simp
  qed
  have 3: "r \<in> set (rows ?out) \<longleftrightarrow> passes (filter (\<lambda>(c, p). c \<noteq> m) rules) (columns df) r"
    if "m \<in> set MONEY_COLS" "r \<in> set (rows df)" "cell_at (columns df) r m = NaN" for m r
    using that missing_money_passes[OF that(1,3)] by (simp add: row_ok_def)
  have 4: "schema ?out = schema df" "rows ?out = filter (row_ok (columns df)) (rows df)"
    by simp_all
  show ?thesis
    apply (rule exI[of _ ?out])
    apply (intro conjI ballI impI)
              apply (rule 1)
             apply (rule 4)
            apply (rule 4)
           apply (rule missing_as_zero)+
     apply (erule (2) 2)
    apply (erule (2) 3)
    done
qed

theorem clean_rows_missing_as_zero_witness:
  "numeric_cols ex_clean \<and> map_option rows (clean_rows ex_clean) = Some [[Num 120, NaN, Num 30, Num 1]]"
proof -
  have h: "numeric_cols ex_clean" by code_simp
  from clean_rows_missing_as_zero[OF h] obtain out where
    o: "clean_rows ex_clean = Some out" "rows out = filter (row_ok (columns ex_clean)) (rows ex_clean)"
    by blast
  have "filter (row_ok (columns ex_clean)) (rows ex_clean) = [[Num 120, NaN, Num 30, Num 1]]"
    by code_simp
  with o h show ?thesis by simp
qed

lemma columns_drop_column: "columns (drop_column c df) = filter (\<lambda>n. n \<noteq> c) (columns df)"
  by (simp add: columns_def drop_column_def filter_map comp_def case_prod_unfold)

lemma zip_filter_keys:
  "length cols = length r \<Longrightarrow>
   zip (filter P cols) (map snd (filter (\<lambda>(n, v). P n) (zip cols r))) = filter (\<lambda>(n, v). P n) (zip cols r)"
  by (induction cols r rule: list_induct2) auto

lemma map_of_filter_keys: "P k \<Longrightarrow> map_of (filter (\<lambda>(n, v). P n) xs) k = map_of xs k"
  by (induction xs) auto

lemma cell_at_drop:
  assumes "length r = length cols" "c' \<noteq> c"
  shows "cell_at (filter (\<lambda>n. n \<noteq> c) cols) (map snd (filter (\<lambda>(n, v). n \<noteq> c) (zip cols r))) c'
         = cell_at cols r c'"
proof -
  have "length cols = length r" using assms(1) by simp
  then have z: "zip (filter (\<lambda>n. n \<noteq> c) cols) (map snd (filter (\<lambda>(n, v). n \<noteq> c) (zip cols r)))
      = filter (\<lambda>(n, v). n \<noteq> c) (zip cols r)"
    by (rule zip_filter_keys)
  have m: "map_of (filter (\<lambda>(n, v). n \<noteq> c) (zip cols r)) c' = map_of (zip cols r) c'"
    using assms(2) by (rule map_of_filter_keys)
  show ?thesis unfolding cell_at_def z m ..
qed

lemma cell_at_absent: "c \<notin> set cols \<Longrightarrow> cell_at cols r c = NaN"
proof -
  assume "c \<notin> set cols"
  then have "c \<notin> fst ` set (zip cols r)" by (auto dest: set_zip_leftD)
  then have "map_of (zip cols r) c = None" by (simp add: map_of_eq_None_iff)
  then show ?thesis by (simp add: cell_at_def)
qed

lemma passes_drop:
  assumes "length r = length cols" "passes rs cols r"
  shows "passes rs (filter (\<lambda>n. n \<noteq> c) cols) (map snd (filter (\<lambda>(n, v). n \<noteq> c) (zip cols r)))"
  using assms(2) cell_at_drop[OF assms(1)]
  by (auto simp: passes_def list_all_iff)

lemma aligned_row: "aligned df \<Longrightarrow> r \<in> set (rows df) \<Longrightarrow> length r = length (columns df)"
  by (simp add: aligned_def list_all_iff length_columns)

lemma numeric_cols_drop:
  assumes a: "aligned df" and n: "numeric_cols df"
  shows "numeric_cols (drop_column c df)"
proof -
  have "numeric (cell_at (columns (drop_column c df)) r' c')"
    if "r' \<in> set (rows (drop_column c df))" "c' \<in> set NUM_COLS" for r' c'
  proof -
    from that(1) obtain r where r: "r \<in> set (rows df)"
      and r': "r' = map snd (filter (\<lambda>(n, v). n \<noteq> c) (zip (columns df) r))"
      by (auto simp: drop_column_def)
    show ?thesis
    proof (cases "c' = c")
      case True
      then have "c' \<notin> set (columns (drop_column c df))" by (simp add: columns_drop_column)
      then show ?thesis by (simp add: cell_at_absent numeric_def)
    next
      case False
      with cell_at_drop[OF aligned_row[OF a r], of c' c] numeric_cols_cell[OF n that(2) r]
      show ?thesis by (simp add: columns_drop_column r')
    qed
  qed
  then show ?thesis
    by (simp add: numeric_cols_def list_all_iff column_of_def)
qed

lemma length_filter_mono:
  "\<forall>x\<in>set xs. P x \<longrightarrow> Q (f x) \<Longrightarrow> length (filter P xs) \<le> length (filter Q (map f xs))"
  by (induction xs) auto

lemma run_rules_absent:
  "list_all (\<lambda>(n, p). n \<notin> set (columns df)) rs \<Longrightarrow> run_rules rs df = Some df"
  by (induction rs) (auto simp: rule_absent)

text \<open>
  Claim C8. A rule whose column is absent filters nothing: the guarded filter returns
  the table as it is, the rows kept are those passing the rules of the other columns,
  and a table with no rule column at all is returned unchanged. Removing a column from
  a well-formed table whose registry columns hold no string never lowers the number of
  rows the filter keeps.
\<close>

theorem clean_rows_absent_column:
  assumes "wf_table df" "numeric_cols df"
  shows "(\<forall>p. c \<notin> set (columns df) \<longrightarrow> rule c p df = Some df)
     \<and> (\<exists>out out'. clean_rows df = Some out \<and> clean_rows (drop_column c df) = Some out'
           \<and> rows out = filter (row_ok (columns df)) (rows df)
           \<and> (c \<notin> set (columns df) \<longrightarrow>
                rows out = filter (passes (filter (\<lambda>(n, p). n \<noteq> c) rules) (columns df)) (rows df))
           \<and> length (rows out) \<le> length (rows out'))
     \<and> (list_all (\<lambda>(n, p). n \<notin> set (columns df)) rules \<longrightarrow> clean_rows df = Some df)"
proof -
  have a: "aligned df" using assms(1) by (simp add: wf_table_def)
  let ?del = "\<lambda>r. map snd (filter (\<lambda>(n, v). n \<noteq> c) (zip (columns df) r))"
  let ?d = "drop_column c df"
  let ?out = "df\<lparr>rows := filter (row_ok (columns df)) (rows df)\<rparr>"
  let ?out' = "?d\<lparr>rows := filter (row_ok (columns ?d)) (rows ?d)\<rparr>"
  have 1: "clean_rows df = Some ?out" using assms(2) by (rule clean_rows_filter)
  have 2: "clean_rows ?d = Some ?out'"
    using numeric_cols_drop[OF a assms(2)] by (rule clean_rows_filter)
  have rd: "rows ?d = map ?del (rows df)" by (simp add: drop_column_def)
  have "\<forall>r\<in>set (rows df). row_ok (columns df) r \<longrightarrow> row_ok (columns ?d) (?del r)"
    using passes_drop[OF aligned_row[OF a]] by (simp add: row_ok_def columns_drop_column)
  then have 3: "length (rows ?out) \<le> length (rows ?out')"
    unfolding rd using length_filter_mono[of "rows df" "row_ok (columns df)" "row_ok (columns ?d)" ?del]
    by simp
  have 5: "rows ?out = filter (row_ok (columns df)) (rows df)" by simp
  have 4: "rows ?out = filter (passes (filter (\<lambda>(n, p). n \<noteq> c) rules) (columns df)) (rows df)"
    if "c \<notin> set (columns df)"
    unfolding 5 using passes_absent[OF that, of rules]
    by (intro filter_cong) (simp_all add: row_ok_def)
  have 6: "clean_rows df = Some df" if "list_all (\<lambda>(n, p). n \<notin> set (columns df)) rules"
    unfolding clean_rows_run using that by (rule run_rules_absent)
  have "\<exists>out out'. clean_rows df = Some out \<and> clean_rows (drop_column c df) = Some out'
           \<and> rows out = filter (row_ok (columns df)) (rows df)
           \<and> (c \<notin> set (columns df) \<longrightarrow>
                rows out = filter (passes (filter (\<lambda>(n, p). n \<noteq> c) rules) (columns df)) (rows df))
           \<and> length (rows out) \<le> length (rows out')"
    apply (rule exI[of _ ?out], rule exI[of _ ?out'])
    apply (intro conjI impI)
        apply (rule 1)
       apply (rule 2)
      apply (rule 5)
     apply (erule 4)
    apply (rule 3)
    done
  then show ?thesis
    using 6 by (simp add: rule_absent)
qed

theorem clean_rows_absent_column_witness:
  "wf_table ex_clean \<and> numeric_cols ex_clean
   \<and> map_option (length \<circ> rows) (clean_rows ex_clean) = Some 1
   \<and> map_option (length \<circ> rows) (clean_rows (drop_column ''kph'' ex_clean)) = Some 2"
proof -
  have h: "wf_table ex_clean" "numeric_cols ex_clean" by code_simp+
  from clean_rows_absent_column[OF h, of "''kph''"] obtain out out' where
    o: "clean_rows ex_clean = Some out" "clean_rows (drop_column ''kph'' ex_clean) = Some out'"
      "rows out = filter (row_ok (columns ex_clean)) (rows ex_clean)"
      "length (rows out) \<le> length (rows out')"
    by blast
  have "length (filter (row_ok (columns ex_clean)) (rows ex_clean)) = 1" by code_simp
  moreover have "map_option (length \<circ> rows) (clean_rows (drop_column ''kph'' ex_clean)) = Some 2"
    by code_simp
  ultimately show ?thesis using o h by simp
qed

section \<open>Properties of drop_duplicates_by_key\<close>

lemma length_duplicated_from: "length (duplicated_from seen ks) = length ks"
  by (induction ks arbitrary: seen) auto

lemma first_occurrences:
  "distinct (map f (map fst (filter snd (zip rs (map Not (duplicated_from seen (map f rs)))))))
   \<and> set (map f (map fst (filter snd (zip rs (map Not (duplicated_from seen (map f rs)))))))
       = set (map f rs) - set seen
   \<and> length (map fst (filter snd (zip rs (map Not (duplicated_from seen (map f rs))))))
       + length (filter id (duplicated_from seen (map f rs))) = length rs"
proof (induction rs arbitrary: seen)
  case Nil
  then show ?case by simp
next
  case (Cons r rs)
  note ih = Cons.IH[of "f r # seen"]
  show ?case
  proof (cases "f r \<in> set seen")
    case True
    then have "insert (f r) (set seen) = set seen" by auto
    with ih True show ?thesis by simp
  next
    case False
    with ih show ?thesis by auto
  qed
qed

lemma map_neq_witness: "map f xs \<noteq> map g xs \<Longrightarrow> \<exists>x\<in>set xs. f x \<noteq> g x"
  by (induction xs) auto

lemma rows_drop_duplicates:
  "rows (drop_duplicates key df) =
   map fst (filter snd (zip (rows df) (map Not (duplicated_from [] (map (key_row (columns df) key) (rows df))))))"
  by (simp add: drop_duplicates_def select_def duplicated_def)

lemma dedup_correct:
  "case drop_duplicates_by_key df of (out, dupes, key) \<Rightarrow>
     key = filter (\<lambda>c. c \<in> set (columns df)) COMPOSITE_KEY
     \<and> schema out = schema df
     \<and> dupes = int (length (rows df)) - int (length (rows out))
     \<and> (key \<noteq> [] \<longrightarrow>
          (\<forall>i j. i < j \<and> j < length (rows out) \<longrightarrow>
             (\<exists>c\<in>set key. key_cell (cell_at (columns df) (rows out ! i) c)
                           \<noteq> key_cell (cell_at (columns df) (rows out ! j) c)))
          \<and> set (map (key_row (columns df) key) (rows out))
              = set (map (key_row (columns df) key) (rows df)))
     \<and> (key = [] \<longrightarrow> out = df \<and> dupes = 0)"
proof -
  define key where "key = filter (\<lambda>c. c \<in> set (columns df)) COMPOSITE_KEY"
  define kr where "kr = key_row (columns df) key"
  define out where "out = drop_duplicates key df"
  have ro: "rows out = map fst (filter snd (zip (rows df) (map Not (duplicated_from [] (map kr (rows df))))))"
    by (simp add: out_def kr_def rows_drop_duplicates)
  from first_occurrences[of kr "rows df" "[]"]
  have d: "distinct (map kr (rows out))"
    and s: "set (map kr (rows out)) = set (map kr (rows df))"
    and l: "length (rows out) + length (filter id (duplicated key df)) = length (rows df)"
    by (simp_all add: ro duplicated_def kr_def)
  have p: "\<exists>c\<in>set key. key_cell (cell_at (columns df) (rows out ! i) c)
                           \<noteq> key_cell (cell_at (columns df) (rows out ! j) c)"
    if "i < j" "j < length (rows out)" for i j
  proof -
    have "map kr (rows out) ! i \<noteq> map kr (rows out) ! j"
      using d that by (simp add: distinct_conv_nth del: nth_map)
    then have "kr (rows out ! i) \<noteq> kr (rows out ! j)" using that by simp
    then show ?thesis unfolding kr_def key_row_def by (rule map_neq_witness)
  qed
  have sch: "schema out = schema df"
    by (simp add: out_def drop_duplicates_def select_def)
  have c: "int (length (filter id (duplicated key df))) = int (length (rows df)) - int (length (rows out))"
    using l by simp
  show ?thesis
  proof (cases "key = []")
    case True
    then show ?thesis
      by (simp add: drop_duplicates_by_key_def Let_def key_def[symmetric])
  next
    case False
    then show ?thesis
      using p s sch c
      by (simp add: drop_duplicates_by_key_def Let_def key_def[symmetric] out_def[symmetric]
          kr_def[symmetric])
  qed
qed

section \<open>Properties of recompute_duration_fields\<close>

lemma div_cell_numeric: "numeric v \<Longrightarrow> div_cell k v \<noteq> None"
  by (simp add: numeric_def div_cell_def)

lemma numeric_div_cell: "numeric v \<Longrightarrow> numeric (the (div_cell k v))"
  by (cases v) (simp_all add: numeric_def div_cell_def)

lemma those_div_cell:
  "\<forall>v\<in>set vs. numeric v \<Longrightarrow>
   those (map (div_cell k) vs) = Some (map (\<lambda>v. the (div_cell k v)) vs)"
  by (intro those_map_Some) (simp add: div_cell_numeric)

lemma duration_cols_numeric:
  assumes "numeric_cols df"
  shows "\<forall>v\<in>set (column_of df ''trip_duration_sec''). numeric v"
    and "\<forall>v\<in>set (column_of df ''trip_duration_min''). numeric v"
proof -
  have "''trip_duration_sec'' \<in> set NUM_COLS" "''trip_duration_min'' \<in> set NUM_COLS"
    by (simp_all add: NUM_COLS_def)
  then show "\<forall>v\<in>set (column_of df ''trip_duration_sec''). numeric v"
    and "\<forall>v\<in>set (column_of df ''trip_duration_min''). numeric v"
    using assms by (simp_all add: numeric_cols_def list_all_iff)
qed

lemma recompute_min_present:
  assumes "''trip_duration_min'' \<in> set (columns df)"
    and "\<forall>v\<in>set (column_of df ''trip_duration_min''). numeric v"
  shows "recompute_duration_fields df =
    Some (assign ''trip_duration_hr'' Float64
           (map (\<lambda>v. round_cell (the (div_cell 60 v))) (column_of df ''trip_duration_min'')) df)"
  using assms(1) those_div_cell[OF assms(2), of 60]
  by (simp add: recompute_duration_fields_def comp_def)

lemma recompute_sec_only:
  assumes a: "aligned df" and m: "''trip_duration_min'' \<notin> set (columns df)"
    and s: "''trip_duration_sec'' \<in> set (columns df)"
    and n: "\<forall>v\<in>set (column_of df ''trip_duration_sec''). numeric v"
  shows "recompute_duration_fields df =
    Some (assign ''trip_duration_hr'' Float64
           (map (\<lambda>v. round_cell (the (div_cell 60 (the (div_cell 60 v)))))
              (column_of df ''trip_duration_sec''))
           (assign ''trip_duration_min'' Float64
              (map (\<lambda>v. the (div_cell 60 v)) (column_of df ''trip_duration_sec'')) df))"
proof -
  let ?vs = "map (\<lambda>v. the (div_cell 60 v)) (column_of df ''trip_duration_sec'')"
  let ?d = "assign ''trip_duration_min'' Float64 ?vs df"
  have l: "length ?vs = length (rows df)" by (simp add: length_column_of)
  have c: "''trip_duration_min'' \<in> set (columns ?d)" by (simp add: columns_assign)
  have v: "column_of ?d ''trip_duration_min'' = ?vs"
    using column_of_assign[OF a l, of "''trip_duration_min''" Float64 "''trip_duration_min''"] by simp
  have "\<forall>v\<in>set ?vs. numeric v" using n by (auto simp: numeric_div_cell)
  then have "those (map (div_cell 60) ?vs) = Some (map (\<lambda>v. the (div_cell 60 v)) ?vs)"
    by (rule those_div_cell)
  then have t: "those (map (\<lambda>x. div_cell 60 (the (div_cell 60 x))) (column_of df ''trip_duration_sec''))
      = Some (map (\<lambda>v. the (div_cell 60 (the (div_cell 60 v)))) (column_of df ''trip_duration_sec''))"
    by (simp add: comp_def)
  show ?thesis
    using m s those_div_cell[OF n, of 60] c
    by (simp add: recompute_duration_fields_def v t comp_def)
qed

lemma recompute_neither:
  "''trip_duration_min'' \<notin> set (columns df) \<Longrightarrow> ''trip_duration_sec'' \<notin> set (columns df) \<Longrightarrow>
   recompute_duration_fields df = Some df"
  by (simp add: recompute_duration_fields_def)

lemma recompute_summary:
  assumes a: "aligned df" and n: "numeric_cols df"
  obtains out where "recompute_duration_fields df = Some out" and "aligned out"
    and "length (rows out) = length (rows df)"
    and "set (columns out) = set (columns df) \<union>
          (if ''trip_duration_min'' \<in> set (columns df) \<or> ''trip_duration_sec'' \<in> set (columns df)
           then {''trip_duration_min'', ''trip_duration_hr''} else {})"
    and "\<forall>c. c \<noteq> ''trip_duration_min'' \<and> c \<noteq> ''trip_duration_hr'' \<longrightarrow> column_of out c = column_of df c"
    and "''trip_duration_min'' \<in> set (columns df) \<longrightarrow>
          column_of out ''trip_duration_min'' = column_of df ''trip_duration_min''"
    and "''trip_duration_min'' \<notin> set (columns df) \<and> ''trip_duration_sec'' \<in> set (columns df) \<longrightarrow>
          column_of out ''trip_duration_min''
            = map (\<lambda>v. the (div_cell 60 v)) (column_of df ''trip_duration_sec'')"
    and "''trip_duration_min'' \<in> set (columns df) \<or> ''trip_duration_sec'' \<in> set (columns df) \<longrightarrow>
          column_of out ''trip_duration_hr''
            = map (\<lambda>v. round_cell (the (div_cell 60 v))) (column_of out ''trip_duration_min'')"
    and "''trip_duration_min'' \<notin> set (columns df) \<and> ''trip_duration_sec'' \<notin> set (columns df) \<longrightarrow>
          out = df"
proof -
  have ne: "''trip_duration_min'' \<noteq> ''trip_duration_hr''" by simp
  consider (A) "''trip_duration_min'' \<in> set (columns df)"
    | (B) "''trip_duration_min'' \<notin> set (columns df)" "''trip_duration_sec'' \<in> set (columns df)"
    | (C) "''trip_duration_min'' \<notin> set (columns df)" "''trip_duration_sec'' \<notin> set (columns df)"
    by blast
  then show ?thesis
  proof cases
    case A
    let ?hs = "map (\<lambda>v. round_cell (the (div_cell 60 v))) (column_of df ''trip_duration_min'')"
    let ?out = "assign ''trip_duration_hr'' Float64 ?hs df"
    have l: "length ?hs = length (rows df)" by (simp add: length_column_of)
    have 1: "recompute_duration_fields df = Some ?out"
      using A duration_cols_numeric(2)[OF n] by (rule recompute_min_present)
    have 2: "column_of ?out c = (if c = ''trip_duration_hr'' then ?hs else column_of df c)" for c
      by (rule column_of_assign[OF a l])
    have 3: "aligned ?out" by (rule aligned_assign[OF a l])
    have 4: "length (rows ?out) = length (rows df)" by (rule length_rows_assign[OF l])
    have 5: "set (columns ?out) = set (columns df) \<union> {''trip_duration_min'', ''trip_duration_hr''}"
      using A by (auto simp: columns_assign)
    show ?thesis
      by (rule that[of ?out]) (use A 1 3 4 5 ne in \<open>simp_all add: 2\<close>)
  next
    case B
    let ?ms = "map (\<lambda>v. the (div_cell 60 v)) (column_of df ''trip_duration_sec'')"
    let ?d = "assign ''trip_duration_min'' Float64 ?ms df"
    let ?hs = "map (\<lambda>v. round_cell (the (div_cell 60 (the (div_cell 60 v))))) (column_of df ''trip_duration_sec'')"
    let ?out = "assign ''trip_duration_hr'' Float64 ?hs ?d"
    have lm: "length ?ms = length (rows df)" by (simp add: length_column_of)
    have ad: "aligned ?d" by (rule aligned_assign[OF a lm])
    have ld: "length (rows ?d) = length (rows df)" by (rule length_rows_assign[OF lm])
    have lh: "length ?hs = length (rows ?d)" by (simp add: length_column_of ld)
    have 1: "recompute_duration_fields df = Some ?out"
      using a B duration_cols_numeric(1)[OF n] by (rule recompute_sec_only)
    have d: "column_of ?d c = (if c = ''trip_duration_min'' then ?ms else column_of df c)" for c
      by (rule column_of_assign[OF a lm])
    have 2: "column_of ?out c = (if c = ''trip_duration_hr'' then ?hs else column_of ?d c)" for c
      by (rule column_of_assign[OF ad lh])
    have 3: "aligned ?out" by (rule aligned_assign[OF ad lh])
    have 4: "length (rows ?out) = length (rows df)"
      using length_rows_assign[OF lh] ld by simp
    have 5: "set (columns ?out) = set (columns df) \<union> {''trip_duration_min'', ''trip_duration_hr''}"
      using B by (auto simp: columns_assign)
    show ?thesis
      by (rule that[of ?out]) (use B 1 3 4 5 ne in \<open>simp_all add: 2 d\<close>)
  next
    case C
    show ?thesis
      by (rule that[of df]) (use C a in \<open>simp_all add: recompute_neither\<close>)
  qed
qed

section \<open>The stages of the pipeline\<close>

lemma num_or_missing_numeric: "num_or_missing v \<Longrightarrow> numeric v"
  by (cases v) (simp_all add: num_or_missing_def numeric_def)

lemma column_of_absent: "c \<notin> set (columns df) \<Longrightarrow> \<forall>v\<in>set (column_of df c). v = NaN"
  by (simp add: column_of_def cell_at_absent)

lemma coerced_coerce_types:
  assumes "aligned df"
  shows "coerced (coerce_types parse fmt df)"
proof -
  have "num_or_missing v"
    if "c \<in> set NUM_COLS" "v \<in> set (column_of (coerce_types parse fmt df) c)" for c v
  proof (cases "c \<in> set (columns df)")
    case True
    with that show ?thesis
      by (auto simp: column_of_coerce_types[OF assms] to_numeric_num_or_missing)
  next
    case False
    with that column_of_absent[OF False] show ?thesis
      by (auto simp: column_of_coerce_types[OF assms] num_or_missing_def)
  qed
  then show ?thesis by (auto simp: coerced_def list_all_iff)
qed

lemma coerced_numeric: "coerced df \<Longrightarrow> numeric_cols df"
  by (auto simp: coerced_def numeric_cols_def list_all_iff num_or_missing_numeric)

lemma column_of_filter:
  "column_of (df\<lparr>rows := filter P (rows df)\<rparr>) c
   = map (\<lambda>r. cell_at (columns df) r c) (filter P (rows df))"
  by (simp add: column_of_def)

lemma coerced_filter: "coerced df \<Longrightarrow> coerced (df\<lparr>rows := filter P (rows df)\<rparr>)"
  by (auto simp: coerced_def list_all_iff column_of_def)

lemma aligned_filter: "aligned df \<Longrightarrow> aligned (df\<lparr>rows := filter P (rows df)\<rparr>)"
  by (auto simp: aligned_def list_all_iff)

lemma coerced_cell:
  "coerced df \<Longrightarrow> c \<in> set NUM_COLS \<Longrightarrow> r \<in> set (rows df) \<Longrightarrow>
   num_or_missing (cell_at (columns df) r c)"
  by (auto simp: coerced_def list_all_iff column_of_def)


lemma clean_stage:
  assumes a: "aligned d" and c: "coerced d"
  shows "\<exists>d3. clean_rows d = Some d3 \<and> schema d3 = schema d \<and> aligned d3 \<and> coerced d3
     \<and> (\<forall>r\<in>set (rows d3). row_ok (columns d) r)"
proof -
  let ?d3 = "d\<lparr>rows := filter (row_ok (columns d)) (rows d)\<rparr>"
  have "clean_rows d = Some ?d3" using coerced_numeric[OF c] by (rule clean_rows_filter)
  moreover have "aligned ?d3" using a by (rule aligned_filter)
  moreover have "coerced ?d3" using c by (rule coerced_filter)
  ultimately show ?thesis by (intro exI[of _ ?d3]) simp
qed

lemma cleaned_column:
  assumes c: "coerced d3" and ok: "\<forall>r\<in>set (rows d3). row_ok (columns d3) r"
    and m: "(n, p) \<in> set rules" and n: "n \<in> set (columns d3)"
  shows "\<forall>v\<in>set (column_of d3 n). holds p v \<and> num_or_missing v"
proof -
  have "n \<in> set NUM_COLS" using m rules_columns by force
  then show ?thesis
    using c ok passes_mem[OF _ m n]
    by (auto simp: column_of_def row_ok_def coerced_cell)
qed

lemma rows_select_subset: "set (rows (select m df)) \<subseteq> set (rows df)"
  by (auto simp: select_def dest: set_zip_leftD)

lemma dedup_stage:
  "case drop_duplicates_by_key df of (out, dupes, key) \<Rightarrow>
     schema out = schema df \<and> set (rows out) \<subseteq> set (rows df)
     \<and> dupes = int (length (rows df)) - int (length (rows out))"
proof -
  let ?key = "filter (\<lambda>c. c \<in> set (columns df)) COMPOSITE_KEY"
  from first_occurrences[of "key_row (columns df) ?key" "rows df" "[]"]
  have "length (rows (drop_duplicates ?key df)) + length (filter id (duplicated ?key df))
        = length (rows df)"
    by (simp add: rows_drop_duplicates duplicated_def)
  then have "int (length (filter id (duplicated ?key df)))
        = int (length (rows df)) - int (length (rows (drop_duplicates ?key df)))"
    by simp
  moreover have "schema (drop_duplicates ?key df) = schema df"
    by (simp add: drop_duplicates_def select_def)
  moreover have "set (rows (drop_duplicates ?key df)) \<subseteq> set (rows df)"
    unfolding drop_duplicates_def by (rule rows_select_subset)
  ultimately show ?thesis
    by (simp add: drop_duplicates_by_key_def Let_def)
qed

lemma column_all:
  "(\<forall>v\<in>set (column_of df c). P v) \<longleftrightarrow> (\<forall>r\<in>set (rows df). P (cell_at (columns df) r c))"
  by (simp add: column_of_def)

lemma column_rel:
  "column_of df a = map F (column_of df b) \<Longrightarrow> r \<in> set (rows df) \<Longrightarrow>
   cell_at (columns df) r a = F (cell_at (columns df) r b)"
  by (simp add: column_of_def)

lemma rules_not_hours: "list_all (\<lambda>(n, p). n \<noteq> ''trip_duration_hr'') rules"
  by code_simp

lemma columns_schema: "schema a = schema b \<Longrightarrow> columns a = columns b"
  by (simp add: columns_def)

lemma pipeline_rows:
  assumes wf: "wf_table (normalize_columns raw)"
  obtains out dupes key d3
  where "main_pipeline parse fmt raw = Some (out, dupes, key)"
    and "clean_rows (coerce_types parse fmt (normalize_columns raw)) = Some d3"
    and "dupes = int (length (rows d3)) - int (length (rows out))"
    and "set (columns out) = set (columns (normalize_columns raw)) \<union>
          (if ''trip_duration_min'' \<in> set (columns (normalize_columns raw))
              \<or> ''trip_duration_sec'' \<in> set (columns (normalize_columns raw))
           then {''trip_duration_min'', ''trip_duration_hr''} else {})"
    and "\<forall>r\<in>set (rows out).
          (\<forall>(n, p)\<in>set rules. n \<in> set (columns (normalize_columns raw)) \<longrightarrow>
             holds p (cell_at (columns out) r n) \<and> num_or_missing (cell_at (columns out) r n))
        \<and> (''trip_duration_min'' \<notin> set (columns (normalize_columns raw))
             \<and> ''trip_duration_sec'' \<in> set (columns (normalize_columns raw)) \<longrightarrow>
             cell_at (columns out) r ''trip_duration_min''
               = the (div_cell 60 (cell_at (columns out) r ''trip_duration_sec'')))
        \<and> (''trip_duration_min'' \<in> set (columns (normalize_columns raw))
             \<or> ''trip_duration_sec'' \<in> set (columns (normalize_columns raw)) \<longrightarrow>
             cell_at (columns out) r ''trip_duration_hr''
               = round_cell (the (div_cell 60 (cell_at (columns out) r ''trip_duration_min''))))"
proof -
  define d1 where "d1 = normalize_columns raw"
  define d2 where "d2 = coerce_types parse fmt d1"
  define cols where "cols = columns d1"
  have a1: "aligned d1" using wf by (simp add: wf_table_def d1_def)
  have a2: "aligned d2" and k2: "columns d2 = cols"
    using coerce_types_shape[OF a1, of parse fmt] by (simp_all add: d2_def cols_def)
  have c2: "coerced d2" unfolding d2_def using a1 by (rule coerced_coerce_types)
  from clean_stage[OF a2 c2] obtain d3 where
    cl3: "clean_rows d2 = Some d3 \<and> schema d3 = schema d2 \<and> aligned d3 \<and> coerced d3
     \<and> (\<forall>r\<in>set (rows d3). row_ok (columns d2) r)" ..
  then have cl: "clean_rows d2 = Some d3" and s3: "schema d3 = schema d2" and a3: "aligned d3"
    and c3: "coerced d3" and ok: "\<forall>r\<in>set (rows d3). row_ok (columns d2) r"
    by simp_all
  have k3: "columns d3 = cols" using columns_schema[OF s3] k2 by simp
  have ok3: "\<forall>r\<in>set (rows d3). row_ok (columns d3) r" using ok k2 k3 by simp
  obtain d4 where rc: "recompute_duration_fields d3 = Some d4" and a4: "aligned d4"
    and l4: "length (rows d4) = length (rows d3)"
    and k4': "set (columns d4) = set (columns d3) \<union>
          (if ''trip_duration_min'' \<in> set (columns d3) \<or> ''trip_duration_sec'' \<in> set (columns d3)
           then {''trip_duration_min'', ''trip_duration_hr''} else {})"
    and same': "\<forall>c. c \<noteq> ''trip_duration_min'' \<and> c \<noteq> ''trip_duration_hr'' \<longrightarrow> column_of d4 c = column_of d3 c"
    and min_kept': "''trip_duration_min'' \<in> set (columns d3) \<longrightarrow>
          column_of d4 ''trip_duration_min'' = column_of d3 ''trip_duration_min''"
    and min_new': "''trip_duration_min'' \<notin> set (columns d3) \<and> ''trip_duration_sec'' \<in> set (columns d3) \<longrightarrow>
          column_of d4 ''trip_duration_min''
            = map (\<lambda>v. the (div_cell 60 v)) (column_of d3 ''trip_duration_sec'')"
    and hr': "''trip_duration_min'' \<in> set (columns d3) \<or> ''trip_duration_sec'' \<in> set (columns d3) \<longrightarrow>
          column_of d4 ''trip_duration_hr''
            = map (\<lambda>v. round_cell (the (div_cell 60 v))) (column_of d4 ''trip_duration_min'')"
    and "''trip_duration_min'' \<notin> set (columns d3) \<and> ''trip_duration_sec'' \<notin> set (columns d3) \<longrightarrow>
          d4 = d3"
    by (rule recompute_summary[OF a3 coerced_numeric[OF c3]])
  note k4 = k4'[unfolded k3]
  have same: "column_of d4 c = column_of d3 c"
    if "c \<noteq> ''trip_duration_min''" "c \<noteq> ''trip_duration_hr''" for c
    using same' that by simp
  have min_kept: "column_of d4 ''trip_duration_min'' = column_of d3 ''trip_duration_min''"
    if "''trip_duration_min'' \<in> set cols"
    using min_kept' that unfolding k3 by simp
  have min_new: "column_of d4 ''trip_duration_min''
            = map (\<lambda>v. the (div_cell 60 v)) (column_of d3 ''trip_duration_sec'')"
    if "''trip_duration_min'' \<notin> set cols" "''trip_duration_sec'' \<in> set cols"
    using min_new' that unfolding k3 by simp
  have hr: "column_of d4 ''trip_duration_hr''
            = map (\<lambda>v. round_cell (the (div_cell 60 v))) (column_of d4 ''trip_duration_min'')"
    if "''trip_duration_min'' \<in> set cols \<or> ''trip_duration_sec'' \<in> set cols"
    using hr' that unfolding k3 by simp
  obtain out dupes key where dd: "drop_duplicates_by_key d4 = (out, dupes, key)"
    by (cases "drop_duplicates_by_key d4") auto
  from dedup_stage[of d4] dd have s5: "schema out = schema d4"
    and sub: "set (rows out) \<subseteq> set (rows d4)"
    and cnt: "dupes = int (length (rows d4)) - int (length (rows out))"
    by simp_all
  have k5: "columns out = columns d4" using s5 by (rule columns_schema)
  have run: "main_pipeline parse fmt raw = Some (out, dupes, key)"
    using cl rc dd by (simp add: main_pipeline_def Let_def d1_def d2_def)
  have rule_cells: "holds p (cell_at (columns d4) r n) \<and> num_or_missing (cell_at (columns d4) r n)"
    if m: "(n, p) \<in> set rules" and n: "n \<in> set cols" and r: "r \<in> set (rows d4)" for n p r
  proof -
    have nh: "n \<noteq> ''trip_duration_hr''"
      using rules_not_hours m by (auto simp: list_all_iff)
    have "column_of d4 n = column_of d3 n"
    proof (cases "n = ''trip_duration_min''")
      case True
      with n min_kept show ?thesis by simp
    next
      case False
      then show ?thesis using nh by (rule same)
    qed
    moreover have "\<forall>v\<in>set (column_of d3 n). holds p v \<and> num_or_missing v"
      using c3 ok3 m n unfolding k3[symmetric] by (rule cleaned_column)
    ultimately have "\<forall>v\<in>set (column_of d4 n). holds p v \<and> num_or_missing v" by simp
    then show ?thesis using r by (simp add: column_all)
  qed
  have sec_min: "cell_at (columns d4) r ''trip_duration_min''
        = the (div_cell 60 (cell_at (columns d4) r ''trip_duration_sec''))"
    if "''trip_duration_min'' \<notin> set cols" "''trip_duration_sec'' \<in> set cols"
      and r: "r \<in> set (rows d4)" for r
  proof -
    have "column_of d4 ''trip_duration_sec'' = column_of d3 ''trip_duration_sec''"
      by (rule same) simp_all
    with min_new[OF that(1,2)]
    have "column_of d4 ''trip_duration_min''
          = map (\<lambda>v. the (div_cell 60 v)) (column_of d4 ''trip_duration_sec'')" by simp
    then show ?thesis using r by (rule column_rel)
  qed
  have min_hr: "cell_at (columns d4) r ''trip_duration_hr''
        = round_cell (the (div_cell 60 (cell_at (columns d4) r ''trip_duration_min'')))"
    if "''trip_duration_min'' \<in> set cols \<or> ''trip_duration_sec'' \<in> set cols"
      and r: "r \<in> set (rows d4)" for r
    using hr[OF that(1)] r by (rule column_rel)
  have rows_ok: "(\<forall>(n, p)\<in>set rules. n \<in> set cols \<longrightarrow>
             holds p (cell_at (columns out) r n) \<and> num_or_missing (cell_at (columns out) r n))
        \<and> (''trip_duration_min'' \<notin> set cols \<and> ''trip_duration_sec'' \<in> set cols \<longrightarrow>
             cell_at (columns out) r ''trip_duration_min''
               = the (div_cell 60 (cell_at (columns out) r ''trip_duration_sec'')))
        \<and> (''trip_duration_min'' \<in> set cols \<or> ''trip_duration_sec'' \<in> set cols \<longrightarrow>
             cell_at (columns out) r ''trip_duration_hr''
               = round_cell (the (div_cell 60 (cell_at (columns out) r ''trip_duration_min''))))"
    if "r \<in> set (rows out)" for r
  proof -
    have r: "r \<in> set (rows d4)" using that sub by (rule subsetD[rotated])
    have 1: "\<forall>(n, p)\<in>set rules. n \<in> set cols \<longrightarrow>
             holds p (cell_at (columns d4) r n) \<and> num_or_missing (cell_at (columns d4) r n)"
    proof (intro ballI, clarify)
      fix n p assume "(n, p) \<in> set rules" "n \<in> set cols"
      then show "holds p (cell_at (columns d4) r n) \<and> num_or_missing (cell_at (columns d4) r n)"
        using r by (rule rule_cells)
    qed
    show ?thesis
      unfolding k5
      using 1 sec_min[OF _ _ r] min_hr[OF _ r]
      by (intro conjI impI) simp_all
  qed
  have cnt': "dupes = int (length (rows d3)) - int (length (rows out))"
    using cnt l4 by simp
  have k': "set (columns out) = set cols \<union>
          (if ''trip_duration_min'' \<in> set cols \<or> ''trip_duration_sec'' \<in> set cols
           then {''trip_duration_min'', ''trip_duration_hr''} else {})"
    using k4 k5 by simp
  have rows': "\<forall>r\<in>set (rows out).
          (\<forall>(n, p)\<in>set rules. n \<in> set cols \<longrightarrow>
             holds p (cell_at (columns out) r n) \<and> num_or_missing (cell_at (columns out) r n))
        \<and> (''trip_duration_min'' \<notin> set cols \<and> ''trip_duration_sec'' \<in> set cols \<longrightarrow>
             cell_at (columns out) r ''trip_duration_min''
               = the (div_cell 60 (cell_at (columns out) r ''trip_duration_sec'')))
        \<and> (''trip_duration_min'' \<in> set cols \<or> ''trip_duration_sec'' \<in> set cols \<longrightarrow>
             cell_at (columns out) r ''trip_duration_hr''
               = round_cell (the (div_cell 60 (cell_at (columns out) r ''trip_duration_min''))))"
    using rows_ok by (rule ballI)
  show ?thesis
    by (rule that[OF run cl[unfolded d2_def d1_def] cnt' k'[unfolded cols_def d1_def]
          rows'[unfolded cols_def d1_def]])
qed







section \<open>Properties of the pipeline's output\<close>




lemma ex_trips_run:
  "wf_table (normalize_columns ex_trips)"
  "main_pipeline read_decimal ex_fmt ex_trips =
     Some (ex_trips_out, 1, [''trip_duration_sec'', ''distance_traveled_km'', ''tip'', ''surge_applied''])"
  by code_simp+










text \<open>
  Claim C2. The key is the list of composite-key columns present in the table. When it
  is not empty, any two output rows at different positions differ on a key column (with
  missing equal to missing), every key of the input is still represented, and the
  reported count is the number of input rows minus the number of output rows. When no
  key column is present, the table is returned as it is and the count is 0. In the
  pipeline the input of the deduplicator has as many rows as the filter kept, so the
  count it reports is the number of rows after filtering minus the number of output rows.
\<close>

theorem drop_duplicates_by_key_correct:
  "(case drop_duplicates_by_key df of (out, dupes, key) \<Rightarrow>
     key = filter (\<lambda>c. c \<in> set (columns df)) COMPOSITE_KEY
     \<and> schema out = schema df
     \<and> dupes = int (length (rows df)) - int (length (rows out))
     \<and> (key \<noteq> [] \<longrightarrow>
          (\<forall>i j. i < j \<and> j < length (rows out) \<longrightarrow>
             (\<exists>c\<in>set key. key_cell (cell_at (columns df) (rows out ! i) c)
                           \<noteq> key_cell (cell_at (columns df) (rows out ! j) c)))
          \<and> set (map (key_row (columns df) key) (rows out))
              = set (map (key_row (columns df) key) (rows df)))
     \<and> (key = [] \<longrightarrow> out = df \<and> dupes = 0))
   \<and> (wf_table (normalize_columns raw) \<longrightarrow>
        (\<exists>out dupes key d3. main_pipeline parse fmt raw = Some (out, dupes, key)
           \<and> clean_rows (coerce_types parse fmt (normalize_columns raw)) = Some d3
           \<and> dupes = int (length (rows d3)) - int (length (rows out))))"
proof (intro conjI impI)
  show "case drop_duplicates_by_key df of (out, dupes, key) \<Rightarrow>
     key = filter (\<lambda>c. c \<in> set (columns df)) COMPOSITE_KEY
     \<and> schema out = schema df
     \<and> dupes = int (length (rows df)) - int (length (rows out))
     \<and> (key \<noteq> [] \<longrightarrow>
          (\<forall>i j. i < j \<and> j < length (rows out) \<longrightarrow>
             (\<exists>c\<in>set key. key_cell (cell_at (columns df) (rows out ! i) c)
                           \<noteq> key_cell (cell_at (columns df) (rows out ! j) c)))
          \<and> set (map (key_row (columns df) key) (rows out))
              = set (map (key_row (columns df) key) (rows df)))
     \<and> (key = [] \<longrightarrow> out = df \<and> dupes = 0)"
    by (rule dedup_correct)
next
  assume wf: "wf_table (normalize_columns raw)"
  obtain out dupes key d3
    where run: "main_pipeline parse fmt raw = Some (out, dupes, key)"
    and cl: "clean_rows (coerce_types parse fmt (normalize_columns raw)) = Some d3"
    and cnt: "dupes = int (length (rows d3)) - int (length (rows out))"
    by (rule pipeline_rows[OF wf, of parse fmt])
  show "\<exists>out dupes key d3. main_pipeline parse fmt raw = Some (out, dupes, key)
           \<and> clean_rows (coerce_types parse fmt (normalize_columns raw)) = Some d3
           \<and> dupes = int (length (rows d3)) - int (length (rows out))"
    by (intro exI conjI) (rule run, rule cl, rule cnt)
qed

theorem drop_duplicates_by_key_correct_witness:
  "drop_duplicates_by_key ex_dup =
     (ex_dup\<lparr>rows := [[Num 120, NaN, Bool True, Str ''a''], [Num 60, Num 1, Bool False, Str ''c'']]\<rparr>,
      2, [''trip_duration_sec'', ''tip'', ''surge_applied''])
   \<and> int (length (rows ex_dup)) - 2 = 2
   \<and> wf_table (normalize_columns ex_trips)
   \<and> main_pipeline read_decimal ex_fmt ex_trips =
       Some (ex_trips_out, 1, [''trip_duration_sec'', ''distance_traveled_km'', ''tip'', ''surge_applied''])
   \<and> map_option (\<lambda>d. int (length (rows d)) - int (length (rows ex_trips_out)))
        (clean_rows (coerce_types read_decimal ex_fmt (normalize_columns ex_trips))) = Some 1"
proof -
  have e: "drop_duplicates_by_key ex_dup =
     (ex_dup\<lparr>rows := [[Num 120, NaN, Bool True, Str ''a''], [Num 60, Num 1, Bool False, Str ''c'']]\<rparr>,
      2, [''trip_duration_sec'', ''tip'', ''surge_applied''])"
    by code_simp
  note t = drop_duplicates_by_key_correct[of ex_dup ex_trips read_decimal ex_fmt]
  from t have "2 = int (length (rows ex_dup)) - 2" unfolding e by simp
  moreover from t ex_trips_run(1)
  have "\<exists>out dupes key d3. main_pipeline read_decimal ex_fmt ex_trips = Some (out, dupes, key)
           \<and> clean_rows (coerce_types read_decimal ex_fmt (normalize_columns ex_trips)) = Some d3
           \<and> dupes = int (length (rows d3)) - int (length (rows out))"
    by (rule conjunct2[THEN mp])
  then have "map_option (\<lambda>d. int (length (rows d)) - int (length (rows ex_trips_out)))
        (clean_rows (coerce_types read_decimal ex_fmt (normalize_columns ex_trips))) = Some 1"
    unfolding ex_trips_run(2) by auto
  ultimately show ?thesis using e ex_trips_run by simp
qed

end
